theory Spec2Isabelle
  imports Main
begin

section \<open>The module graph\<close>

text \<open>
  A parameter tensor is known by its identity (\<open>pid\<close>, Python's \<open>id\<close> of the tensor), its
  element count and its gradient flag. A module is known by its identity (\<open>mid\<close>), its class
  name, the names of its base classes, the parameters it registers directly and its
  registered child modules. The same module object reached along two paths of the graph
  appears as two subtrees with the same \<open>mid\<close>.
\<close>

record param =
  pid :: nat
  numel :: nat
  requires_grad :: bool

datatype module =
  Module (mid: nat) (class_name: string) (bases: "string list")
         (own_parameters: "param list") (children: "module list")

text \<open>\<open>LAYER_MODULES = (torch.nn.MultiheadAttention,)\<close>\<close>

definition LAYER_MODULES :: "string list" where
  "LAYER_MODULES = [''MultiheadAttention'']"

text \<open>\<open>isinstance(module, classes)\<close>: the class of the module or one of its bases is listed.\<close>

definition isinstance :: "module \<Rightarrow> string list \<Rightarrow> bool" where
  "isinstance m classes = list_ex (\<lambda>c. c = class_name m \<or> List.member (bases m) c) classes"

text \<open>
  \<open>Module.named_modules(memo)\<close> of PyTorch: a module already in the memo yields nothing,
  otherwise it is added to the memo and yielded, followed by what its children yield with the
  same memo. \<open>Module.modules()\<close> starts from the empty memo.
\<close>

fun named_modules :: "module \<Rightarrow> nat list \<Rightarrow> module list \<times> nat list"
and named_modules_of :: "module list \<Rightarrow> nat list \<Rightarrow> module list \<times> nat list" where
  "named_modules (Module i c b ps ch) memo =
     (if List.member memo i then ([], memo)
      else (case named_modules_of ch (i # memo) of
              (ms, memo1) \<Rightarrow> (Module i c b ps ch # ms, memo1)))"
| "named_modules_of [] memo = ([], memo)"
| "named_modules_of (m # ms) memo =
     (case named_modules m memo of
        (xs, memo1) \<Rightarrow> (case named_modules_of ms memo1 of
                          (ys, memo2) \<Rightarrow> (xs @ ys, memo2)))"

definition modules :: "module \<Rightarrow> module list" where
  "modules m = fst (named_modules m [])"

text \<open>
  \<open>Module.children()\<close> of PyTorch yields each registered child once, the first time its
  identity is met.
\<close>

fun named_children :: "nat list \<Rightarrow> module list \<Rightarrow> module list" where
  "named_children memo [] = []"
| "named_children memo (m # ms) =
     (if List.member memo (mid m) then named_children memo ms
      else m # named_children (mid m # memo) ms)"

definition children_of :: "module \<Rightarrow> module list" where
  "children_of m = named_children [] (children m)"

section \<open>Forward hooks and their handles\<close>

text \<open>
  A forward hook registered by \<open>apply_hooks\<close> is the closure \<open>hook\<close> over the depth at which
  the walker met the module. The hooks of all modules of a model are kept in registration
  order, each under the identifier of its \<open>RemovableHandle\<close>; handle identifiers come from a
  counter that only grows.
\<close>

record hook_entry =
  hk_module :: nat
  hk_depth :: int

record model_state =
  forward_hooks :: "(nat \<times> hook_entry) list"
  next_id :: nat

definition register_forward_hook :: "nat \<Rightarrow> int \<Rightarrow> model_state \<Rightarrow> nat \<times> model_state" where
  "register_forward_hook m d st =
     (next_id st,
      st\<lparr>forward_hooks := forward_hooks st @ [(next_id st, \<lparr>hk_module = m, hk_depth = d\<rparr>)],
         next_id := Suc (next_id st)\<rparr>)"

text \<open>\<open>RemovableHandle.remove()\<close>: the entry under the handle's identifier is deleted.\<close>

definition remove_handle :: "nat \<Rightarrow> model_state \<Rightarrow> model_state" where
  "remove_handle h st = st\<lparr>forward_hooks := filter (\<lambda>e. fst e \<noteq> h) (forward_hooks st)\<rparr>"

section \<open>The walker\<close>

text \<open>
  \<open>apply_hooks(module, orig_model, depth, summary_list, hooks, idx, batch_dim, curr_depth)\<close>.
  The walker state is the model's hook registry together with the list \<open>hooks\<close> of handles
  collected so far. \<open>module != orig_model\<close> compares identities, since modules define no
  equality of their own. The loop over \<open>module.children()\<close> carries the memo of children
  already yielded.
\<close>

type_synonym walk = "model_state \<times> nat list"

definition instrumented :: "module \<Rightarrow> module \<Rightarrow> bool" where
  "instrumented m orig_model =
     (let submodules = filter (\<lambda>x. mid x \<noteq> mid orig_model) (modules m)
      in mid m \<noteq> mid orig_model \<or> isinstance m LAYER_MODULES \<or> submodules = [])"

definition add_hook :: "module \<Rightarrow> int \<Rightarrow> walk \<Rightarrow> walk" where
  "add_hook m curr_depth w =
     (case register_forward_hook (mid m) curr_depth (fst w) of
        (h, st) \<Rightarrow> (st, snd w @ [h]))"

fun apply_hooks :: "module \<Rightarrow> module \<Rightarrow> int \<Rightarrow> walk \<Rightarrow> int \<Rightarrow> walk"
and apply_hooks_children ::
      "nat list \<Rightarrow> module list \<Rightarrow> module \<Rightarrow> int \<Rightarrow> walk \<Rightarrow> int \<Rightarrow> walk" where
  "apply_hooks (Module i c b ps ch) orig_model depth w curr_depth =
     (let w1 = (if instrumented (Module i c b ps ch) orig_model
                then add_hook (Module i c b ps ch) curr_depth w else w)
      in if curr_depth \<le> depth
         then apply_hooks_children [] ch orig_model depth w1 (curr_depth + 1)
         else w1)"
| "apply_hooks_children memo [] orig_model depth w curr_depth = w"
| "apply_hooks_children memo (m # ms) orig_model depth w curr_depth =
     (if List.member memo (mid m)
      then apply_hooks_children memo ms orig_model depth w curr_depth
      else apply_hooks_children (mid m # memo) ms orig_model depth
             (apply_hooks m orig_model depth w curr_depth) curr_depth)"

section \<open>Layer records and the hook\<close>

text \<open>
  Modelled from the spec: the class \<open>LayerInfo\<close> (its file is not part of the sources at
  hand). A record keeps the observed module, the depth and the per-depth order it was built
  with, the element counts of the parameters the module owns directly, split by the gradient
  flag, and the recursion flag. The output size computed by \<open>calculate_output_size\<close> is not
  kept: nothing below reads it.
\<close>

record layer_info =
  li_module :: module
  li_depth :: int
  li_order :: int
  num_params_trainable :: nat
  num_params_frozen :: nat
  is_recursive :: bool

definition LayerInfo :: "module \<Rightarrow> int \<Rightarrow> int \<Rightarrow> layer_info" where
  "LayerInfo m d n =
     \<lparr>li_module = m, li_depth = d, li_order = n,
      num_params_trainable = 0, num_params_frozen = 0, is_recursive = False\<rparr>"

text \<open>
  Modelled from the spec: \<open>calculate_num_params\<close> sums the element counts of the directly
  owned parameters, per partition of the gradient flag.
\<close>

definition calculate_num_params :: "layer_info \<Rightarrow> layer_info" where
  "calculate_num_params info =
     info\<lparr>num_params_trainable :=
            sum_list (map numel (filter requires_grad (own_parameters (li_module info)))),
          num_params_frozen :=
            sum_list (map numel (filter (\<lambda>p. \<not> requires_grad p) (own_parameters (li_module info))))\<rparr>"

text \<open>
  Modelled from the spec: the parameter identities already attributed are those owned by
  the earlier records that are not recursive; \<open>check_recursive\<close> marks the new record when
  one of its owned identities is among them.
\<close>

definition owned_ids :: "layer_info \<Rightarrow> nat list" where
  "owned_ids info = map pid (own_parameters (li_module info))"

definition attributed :: "layer_info list \<Rightarrow> param list" where
  "attributed l = concat (map (\<lambda>r. own_parameters (li_module r)) (filter (\<lambda>r. \<not> is_recursive r) l))"

definition check_recursive :: "layer_info \<Rightarrow> layer_info list \<Rightarrow> layer_info" where
  "check_recursive info l =
     info\<lparr>is_recursive := list_ex (\<lambda>p. List.member (map pid (attributed l)) p) (owned_ids info)\<rparr>"

text \<open>The state of one pass: the per-depth counters \<open>idx\<close> and the list of records.\<close>

record pass_state =
  idx :: "int \<rightharpoonup> int"
  summary_list :: "layer_info list"

definition hook :: "int \<Rightarrow> module \<Rightarrow> pass_state \<Rightarrow> pass_state" where
  "hook curr_depth m s =
     (let n = (case idx s curr_depth of None \<Rightarrow> 0 | Some v \<Rightarrow> v) + 1;
          info = LayerInfo m curr_depth n;
          info = calculate_num_params info;
          info = check_recursive info (summary_list s)
      in s\<lparr>idx := (idx s)(curr_depth \<mapsto> n), summary_list := summary_list s @ [info]\<rparr>)"

section \<open>The forward pass\<close>

text \<open>
  Calling a module runs its forward hooks in registration order. A hook of this pass is one
  whose handle is in \<open>hooks\<close>; any other hook on the module is a closure of some other pass
  and leaves the state of this one alone.
\<close>

fun call_hooks :: "(nat \<times> hook_entry) list \<Rightarrow> nat list \<Rightarrow> module \<Rightarrow> pass_state \<Rightarrow> pass_state" where
  "call_hooks [] hooks m s = s"
| "call_hooks (e # es) hooks m s =
     call_hooks es hooks m
       (if hk_module (snd e) = mid m \<and> List.member hooks (fst e)
        then hook (hk_depth (snd e)) m s else s)"

fun run_calls :: "(nat \<times> hook_entry) list \<Rightarrow> nat list \<Rightarrow> module list \<Rightarrow> pass_state \<Rightarrow> pass_state" where
  "run_calls reg hooks [] s = s"
| "run_calls reg hooks (m # ms) s = run_calls reg hooks ms (call_hooks reg hooks m s)"

definition fresh_pass :: pass_state where
  "fresh_pass = \<lparr>idx = Map.empty, summary_list = []\<rparr>"

text \<open>The hooks of this pass that sit on a module, in the order in which a call runs them.\<close>

definition own_hooks :: "(nat \<times> hook_entry) list \<Rightarrow> nat list \<Rightarrow> module \<Rightarrow> hook_entry list" where
  "own_hooks reg hooks m =
     map snd (filter (\<lambda>e. hk_module (snd e) = mid m \<and> List.member hooks (fst e)) reg)"

section \<open>Per-depth order of the records\<close>

definition at_depth :: "int \<Rightarrow> layer_info list \<Rightarrow> layer_info list" where
  "at_depth d l = filter (\<lambda>r. li_depth r = d) l"

definition counters_ok :: "pass_state \<Rightarrow> bool" where
  "counters_ok s =
     (\<forall>d. idx s d = (if at_depth d (summary_list s) = [] then None
                      else Some (int (length (at_depth d (summary_list s)))))
         \<and> map li_order (at_depth d (summary_list s))
             = map int [1..<Suc (length (at_depth d (summary_list s)))])"

section \<open>Values, tensors and exceptions\<close>

text \<open>
  An exception is known by the name of its class and by whether that class derives from
  \<open>Exception\<close> (\<open>Exc\<close>) or only from \<open>BaseException\<close>, as \<open>KeyboardInterrupt\<close> and
  \<open>SystemExit\<close> do (\<open>BaseExc\<close>).
\<close>

datatype exc = Exc string | BaseExc string

fun is_Exception :: "exc \<Rightarrow> bool" where
  "is_Exception (Exc n) = True"
| "is_Exception (BaseExc n) = False"

text \<open>
  The Python values an input specification is made of. A \<open>torch.Size\<close> is a tuple of
  integers and answers \<open>isinstance(_, tuple)\<close> as one.
\<close>

datatype pyval = VInt int | VList "pyval list" | VTuple "pyval list" | VStr string | VNone

text \<open>Of a tensor only the shape, the element type and the device are kept.\<close>

record tensor =
  t_shape :: "int list"
  t_dtype :: string
  t_device :: string

datatype argval = ATensor tensor | AValue pyval

datatype input_data = InTensor tensor | InValue pyval

definition to_device :: "tensor \<Rightarrow> string \<Rightarrow> tensor" where
  "to_device t device = t\<lparr>t_device := device\<rparr>"

section \<open>Input sizes\<close>

text \<open>The generator \<open>flatten\<close> inside \<open>get_correct_input_sizes\<close>, over the items of a sequence.\<close>

fun flatten :: "pyval list \<Rightarrow> pyval list" where
  "flatten [] = []"
| "flatten (VList xs # r) = flatten xs @ flatten r"
| "flatten (VTuple xs # r) = flatten xs @ flatten r"
| "flatten (x # r) = x # flatten r"

text \<open>
  \<open>all(size > 0 for size in ...)\<close>: stops at the first item that is not positive; comparing
  anything but a number with \<open>0\<close> raises \<open>TypeError\<close>.
\<close>

fun all_positive :: "pyval list \<Rightarrow> exc + bool" where
  "all_positive [] = Inr True"
| "all_positive (VInt n # r) = (if n > 0 then all_positive r else Inr False)"
| "all_positive (x # r) = Inl (Exc ''TypeError'')"

fun is_tuple :: "pyval \<Rightarrow> bool" where
  "is_tuple (VTuple xs) = True"
| "is_tuple x = False"

fun is_int :: "pyval \<Rightarrow> bool" where
  "is_int (VInt n) = True"
| "is_int x = False"

text \<open>
  \<open>get_correct_input_sizes\<close>. The two assertions come first; a value that is neither a list
  nor a tuple fails the first assertion when it is falsy, and otherwise cannot be iterated
  and compared by the second (\<open>TypeError\<close>).
\<close>

fun get_correct_input_sizes :: "pyval \<Rightarrow> exc + pyval list" where
  "get_correct_input_sizes (VTuple xs) =
     (case xs of
        [] \<Rightarrow> Inl (Exc ''AssertionError'')
      | x # r \<Rightarrow>
          (case all_positive (flatten xs) of
             Inl e \<Rightarrow> Inl e
           | Inr ok \<Rightarrow>
               if \<not> ok then Inl (Exc ''AssertionError'')
               else if is_tuple x then Inr xs
               else Inr [VTuple xs]))"
| "get_correct_input_sizes (VList xs) =
     (case xs of
        [] \<Rightarrow> Inl (Exc ''AssertionError'')
      | x # r \<Rightarrow>
          (case all_positive (flatten xs) of
             Inl e \<Rightarrow> Inl e
           | Inr ok \<Rightarrow>
               if \<not> ok then Inl (Exc ''AssertionError'')
               else if is_int x then Inr [VTuple xs]
               else Inr xs))"
| "get_correct_input_sizes (VInt n) =
     (if n = 0 then Inl (Exc ''AssertionError'') else Inl (Exc ''TypeError''))"
| "get_correct_input_sizes (VStr s) =
     (if s = [] then Inl (Exc ''AssertionError'') else Inl (Exc ''TypeError''))"
| "get_correct_input_sizes VNone = Inl (Exc ''AssertionError'')"

section \<open>Synthetic input tensors\<close>

text \<open>
  The operations of the tensor library that \<open>get_input_tensor\<close> calls, on shapes, as the
  library documents them. \<open>torch.rand(*size)\<close> wants at least one argument, either the sizes themselves or one
  sequence that holds them, and sizes that are integers and not negative;
  \<open>unsqueeze\<close> accepts a dimension from \<open>-(n+1)\<close> to \<open>n\<close> for a tensor of \<open>n\<close> dimensions and
  counts a negative one from the end; \<open>torch.cat\<close> of two copies doubles the extent of the
  chosen dimension, which must exist.
\<close>

fun ints_of :: "pyval list \<Rightarrow> exc + int list" where
  "ints_of [] = Inr []"
| "ints_of (VInt n # r) =
     (if n < 0 then Inl (Exc ''RuntimeError'')
      else (case ints_of r of Inl e \<Rightarrow> Inl e | Inr ns \<Rightarrow> Inr (n # ns)))"
| "ints_of (x # r) = Inl (Exc ''TypeError'')"

fun torch_rand :: "pyval list \<Rightarrow> exc + int list" where
  "torch_rand [] = Inl (Exc ''TypeError'')"
| "torch_rand [VList xs] = ints_of xs"
| "torch_rand [VTuple xs] = ints_of xs"
| "torch_rand sz = ints_of sz"

definition unsqueeze :: "int list \<Rightarrow> int \<Rightarrow> exc + int list" where
  "unsqueeze sh d =
     (let n = int (length sh) in
      if d < - (n + 1) \<or> n < d then Inl (Exc ''IndexError'')
      else (let k = nat (if d < 0 then d + n + 1 else d)
            in Inr (take k sh @ [1] @ drop k sh)))"

definition cat2 :: "int list \<Rightarrow> int \<Rightarrow> exc + int list" where
  "cat2 sh d =
     (let n = int (length sh) in
      if n = 0 then Inl (Exc ''RuntimeError'')
      else if d < - n \<or> n \<le> d then Inl (Exc ''IndexError'')
      else (let k = nat (if d < 0 then d + n else d)
            in Inr (sh[k := 2 * (sh ! k)])))"

definition torch_ones :: "int \<Rightarrow> exc + int list" where
  "torch_ones n = (if n < 0 then Inl (Exc ''RuntimeError'') else Inr [n])"

text \<open>One turn of the loop of \<open>get_input_tensor\<close>: the shape of the tensor built for \<open>size\<close>.\<close>

definition input_shape :: "pyval \<Rightarrow> int \<Rightarrow> exc + int list" where
  "input_shape sz batch_dim =
     (case sz of
        VList xs \<Rightarrow>
          (case torch_rand xs of Inl e \<Rightarrow> Inl e
           | Inr sh \<Rightarrow> (case unsqueeze sh batch_dim of Inl e \<Rightarrow> Inl e
                        | Inr sh1 \<Rightarrow> cat2 sh1 batch_dim))
      | VTuple xs \<Rightarrow>
          (case torch_rand xs of Inl e \<Rightarrow> Inl e
           | Inr sh \<Rightarrow> (case unsqueeze sh batch_dim of Inl e \<Rightarrow> Inl e
                        | Inr sh1 \<Rightarrow> cat2 sh1 batch_dim))
      | _ \<Rightarrow>
          (case torch_ones batch_dim of Inl e \<Rightarrow> Inl e
           | Inr sh \<Rightarrow> cat2 sh 0))"

text \<open>\<open>get_input_tensor\<close>: the loop runs over \<open>zip(input_size, dtypes)\<close>.\<close>

fun get_input_tensor :: "pyval list \<Rightarrow> int \<Rightarrow> string list \<Rightarrow> string \<Rightarrow> exc + tensor list" where
  "get_input_tensor (sz # sizes) batch_dim (dtype # dtypes) device =
     (case input_shape sz batch_dim of
        Inl e \<Rightarrow> Inl e
      | Inr sh \<Rightarrow>
          (case get_input_tensor sizes batch_dim dtypes device of
             Inl e \<Rightarrow> Inl e
           | Inr x \<Rightarrow> Inr (\<lparr>t_shape = sh, t_dtype = dtype, t_device = device\<rparr> # x)))"
| "get_input_tensor sizes batch_dim dtypes device = Inr []"

section \<open>Statistics\<close>

text \<open>
  Modelled from the spec: the classes \<open>FormattingOptions\<close> and \<open>ModelStatistics\<close> (their
  files are not part of the sources at hand). The statistics keep the records, the input
  sizes and the options they were built with; the totals sum the records that are not
  recursive.
\<close>

record formatting_options =
  fo_branching :: bool
  fo_depth :: int
  fo_verbose :: int
  fo_col_names :: "string list"
  fo_col_width :: int

record model_statistics =
  ms_summary_list :: "layer_info list"
  ms_input_size :: "pyval list"
  ms_formatting :: formatting_options

definition attributed_records :: "layer_info list \<Rightarrow> layer_info list" where
  "attributed_records l = filter (\<lambda>r. \<not> is_recursive r) l"

definition trainable_params :: "model_statistics \<Rightarrow> nat" where
  "trainable_params ms =
     sum_list (map num_params_trainable (attributed_records (ms_summary_list ms)))"

definition frozen_params :: "model_statistics \<Rightarrow> nat" where
  "frozen_params ms =
     sum_list (map num_params_frozen (attributed_records (ms_summary_list ms)))"

definition total_params :: "model_statistics \<Rightarrow> nat" where
  "total_params ms =
     sum_list (map (\<lambda>r. num_params_trainable r + num_params_frozen r)
                   (attributed_records (ms_summary_list ms)))"

section \<open>The driver\<close>

record options =
  opt_batch_dim :: int
  opt_branching :: bool
  opt_col_names :: "string list"
  opt_col_width :: int
  opt_depth :: int
  opt_device :: "string option"
  opt_dtypes :: "string list option"
  opt_verbose :: int

datatype printed = Diagnostic "layer_info list" | Report model_statistics

record summary_result =
  sr_value :: "exc + model_statistics"
  sr_model :: model_state
  sr_printed :: "printed list"

text \<open>
  Lines 75 to 91 of \<open>summary\<close>: the input sizes and the input tensors, or the exception
  raised on the way.
\<close>

definition prepare_input ::
  "input_data \<Rightarrow> int \<Rightarrow> string list option \<Rightarrow> string \<Rightarrow> exc + (pyval list \<times> tensor list)" where
  "prepare_input inp bdim dtypes device =
     (case inp of
        InTensor t \<Rightarrow>
          (case get_correct_input_sizes (VTuple (map VInt (t_shape t))) of
             Inl e \<Rightarrow> Inl e
           | Inr input_size \<Rightarrow> Inr (input_size, [to_device t device]))
      | InValue v \<Rightarrow>
          (case (case v of VList xs \<Rightarrow> Some xs | VTuple xs \<Rightarrow> Some xs | _ \<Rightarrow> None) of
             None \<Rightarrow> Inl (Exc ''TypeError'')
           | Some xs \<Rightarrow>
               (case (case dtypes of
                        Some ds \<Rightarrow> Inr ds
                      | None \<Rightarrow>
                          if device = ''cpu'' \<or> device = ''gpu''
                          then Inr (replicate (length xs) ''float'')
                          else Inl (Exc ''ValueError'')) of
                  Inl e \<Rightarrow> Inl e
                | Inr ds \<Rightarrow>
                    (case get_correct_input_sizes v of
                       Inl e \<Rightarrow> Inl e
                     | Inr input_size \<Rightarrow>
                         (case get_input_tensor input_size bdim ds device of
                            Inl e \<Rightarrow> Inl e
                          | Inr x \<Rightarrow> Inr (input_size, x))))))"

text \<open>Lines 93 and 94: the positional and the keyword arguments handed to the model.\<close>

definition forward_args :: "argval list \<Rightarrow> string \<Rightarrow> argval list" where
  "forward_args args device =
     map (\<lambda>t. case t of ATensor x \<Rightarrow> ATensor (to_device x device) | AValue v \<Rightarrow> AValue v) args"

definition forward_kwargs :: "(string \<times> argval) list \<Rightarrow> string \<Rightarrow> (string \<times> argval) list" where
  "forward_kwargs kwargs device =
     map (\<lambda>(k, v). (k, case v of ATensor x \<Rightarrow> ATensor (to_device x device)
                          | AValue u \<Rightarrow> AValue (VStr k))) kwargs"

text \<open>
  What the model does when called is not part of this program: it is given as the sequence
  of module calls that complete, in order, and the exception that ends the call, if any.
\<close>

type_synonym forward =
  "tensor list \<Rightarrow> argval list \<Rightarrow> (string \<times> argval) list \<Rightarrow> module list \<times> exc option"

definition remove_all :: "nat list \<Rightarrow> model_state \<Rightarrow> model_state" where
  "remove_all hooks st = fold remove_handle hooks st"

text \<open>Lines 72 and 73: the device used when none is given.\<close>

definition resolve_device :: "options \<Rightarrow> bool \<Rightarrow> string" where
  "resolve_device opts cuda_available =
     (case opt_device opts of
        None \<Rightarrow> if cuda_available then ''cuda'' else ''cpu''
      | Some d \<Rightarrow> d)"

definition summary ::
  "model_state \<Rightarrow> module \<Rightarrow> input_data \<Rightarrow> argval list \<Rightarrow> options \<Rightarrow>
   (string \<times> argval) list \<Rightarrow> bool \<Rightarrow> forward \<Rightarrow> summary_result" where
  "summary st model inp args opts kwargs cuda_available fwd =
     (if opt_verbose opts \<noteq> 0 \<and> opt_verbose opts \<noteq> 1 \<and> opt_verbose opts \<noteq> 2
      then \<lparr>sr_value = Inl (Exc ''AssertionError''), sr_model = st, sr_printed = []\<rparr>
      else
        (case apply_hooks model model (opt_depth opts) (st, []) 0 of
           (st1, hooks) \<Rightarrow>
             (let device = resolve_device opts cuda_available
              in case prepare_input inp (opt_batch_dim opts) (opt_dtypes opts) device of
                   Inl e \<Rightarrow> \<lparr>sr_value = Inl e, sr_model = st1, sr_printed = []\<rparr>
                 | Inr (input_size, x) \<Rightarrow>
                     (case fwd x (forward_args args device) (forward_kwargs kwargs device) of
                        (calls, raised) \<Rightarrow>
                          (let s = run_calls (forward_hooks st1) hooks calls fresh_pass;
                               st2 = remove_all hooks st1
                           in case raised of
                                Some e \<Rightarrow>
                                  \<lparr>sr_value = Inl e, sr_model = st2,
                                   sr_printed = (if is_Exception e
                                                 then [Diagnostic (summary_list s)] else [])\<rparr>
                              | None \<Rightarrow>
                                  (let results =
                                         \<lparr>ms_summary_list = summary_list s,
                                          ms_input_size = input_size,
                                          ms_formatting =
                                            \<lparr>fo_branching = opt_branching opts,
                                             fo_depth = opt_depth opts,
                                             fo_verbose = opt_verbose opts,
                                             fo_col_names = opt_col_names opts,
                                             fo_col_width = opt_col_width opts\<rparr>\<rparr>
                                   in \<lparr>sr_value = Inr results, sr_model = st2,
                                       sr_printed = (if opt_verbose opts > 0
                                                     then [Report results] else [])\<rparr>))))))"

section \<open>The nodes the walker meets\<close>

text \<open>
  The calls of \<open>apply_hooks\<close> that one call at the top gives rise to, each with its module
  and its \<open>curr_depth\<close>, in the order in which they are made.
\<close>

fun visits :: "module \<Rightarrow> int \<Rightarrow> int \<Rightarrow> (module \<times> int) list"
and visits_children :: "nat list \<Rightarrow> module list \<Rightarrow> int \<Rightarrow> int \<Rightarrow> (module \<times> int) list" where
  "visits (Module i c b ps ch) depth curr_depth =
     (Module i c b ps ch, curr_depth)
       # (if curr_depth \<le> depth then visits_children [] ch depth (curr_depth + 1) else [])"
| "visits_children memo [] depth curr_depth = []"
| "visits_children memo (m # ms) depth curr_depth =
     (if List.member memo (mid m)
      then visits_children memo ms depth curr_depth
      else visits m depth curr_depth @ visits_children (mid m # memo) ms depth curr_depth)"

text \<open>The modules at distance \<open>k\<close> from a module, along \<open>children()\<close>.\<close>

fun level :: "nat \<Rightarrow> module \<Rightarrow> module list" where
  "level 0 m = [m]"
| "level (Suc k) m = concat (map (level k) (children_of m))"

text \<open>All nodes below a module, the module included.\<close>

fun nodes :: "module \<Rightarrow> module list" where
  "nodes (Module i c b ps ch) = Module i c b ps ch # concat (map nodes ch)"

definition entry_of :: "module \<times> int \<Rightarrow> hook_entry" where
  "entry_of v = \<lparr>hk_module = mid (fst v), hk_depth = snd v\<rparr>"

section \<open>Where the batch dimension lands\<close>






section \<open>The hooks a walk registers\<close>

text \<open>
  Registering a list of hooks one after the other, and the hooks that belong to a list of
  walker calls: one for each call whose module the walker instruments.
\<close>

fun register_all :: "hook_entry list \<Rightarrow> walk \<Rightarrow> walk" where
  "register_all [] w = w"
| "register_all (e # es) w =
     register_all es
       (case register_forward_hook (hk_module e) (hk_depth e) (fst w) of
          (h, st) \<Rightarrow> (st, snd w @ [h]))"

definition new_entries :: "(module \<times> int) list \<Rightarrow> module \<Rightarrow> hook_entry list" where
  "new_entries vs orig_model = map entry_of (filter (\<lambda>v. instrumented (fst v) orig_model) vs)"

section \<open>A pass seen from its own hooks\<close>

text \<open>
  A model state is well formed when every handle in use is older than the counter. The
  hooks of a walk over the whole model are \<open>walk_entries\<close>; \<open>run_entries\<close> runs the hooks
  of a list of entries call by call.
\<close>

definition wf_state :: "model_state \<Rightarrow> bool" where
  "wf_state st = list_all (\<lambda>e. fst e < next_id st) (forward_hooks st)"

text \<open>The hooks that a call of module m runs for a pass holding the entries es.\<close>

definition hooks_on :: "hook_entry list \<Rightarrow> module \<Rightarrow> hook_entry list" where
  "hooks_on es m = filter (\<lambda>e. hk_module e = mid m) es"

definition run_entries :: "hook_entry list \<Rightarrow> module list \<Rightarrow> pass_state \<Rightarrow> pass_state" where
  "run_entries es ms s = fold (\<lambda>m. fold (\<lambda>e. hook (hk_depth e) m) (hooks_on es m)) ms s"

definition walk_entries :: "module \<Rightarrow> int \<Rightarrow> hook_entry list" where
  "walk_entries model depth = new_entries (visits model depth 0) model"

definition pass_records :: "module \<Rightarrow> int \<Rightarrow> module list \<Rightarrow> layer_info list" where
  "pass_records model depth calls =
     summary_list (run_entries (walk_entries model depth) calls fresh_pass)"

definition options_ok :: "options \<Rightarrow> bool" where
  "options_ok opts = (opt_verbose opts = 0 \<or> opt_verbose opts = 1 \<or> opt_verbose opts = 2)"

definition statistics_of :: "layer_info list \<Rightarrow> pyval list \<Rightarrow> options \<Rightarrow> model_statistics" where
  "statistics_of l input_size opts =
     \<lparr>ms_summary_list = l, ms_input_size = input_size,
      ms_formatting =
        \<lparr>fo_branching = opt_branching opts, fo_depth = opt_depth opts,
         fo_verbose = opt_verbose opts, fo_col_names = opt_col_names opts,
         fo_col_width = opt_col_width opts\<rparr>\<rparr>"

section \<open>Small models\<close>

text \<open>
  A fully connected layer with weight and bias, a second one, a container of the first, and
  a container of both; the state of a model without hooks; the default options of
  \<open>summary\<close>.
\<close>

definition linear_1 :: module where
  "linear_1 = Module 1 ''Linear'' [''Module'']
     [\<lparr>pid = 10, numel = 50, requires_grad = True\<rparr>,
      \<lparr>pid = 11, numel = 5, requires_grad = True\<rparr>] []"

definition linear_2 :: module where
  "linear_2 = Module 2 ''Linear'' [''Module'']
     [\<lparr>pid = 20, numel = 40, requires_grad = True\<rparr>,
      \<lparr>pid = 21, numel = 5, requires_grad = False\<rparr>] []"

definition sequential_0 :: module where
  "sequential_0 = Module 0 ''Sequential'' [''Module''] [] [linear_1]"

definition sequential_3 :: module where
  "sequential_3 = Module 3 ''Sequential'' [''Module''] [] [linear_1, linear_2]"

definition no_hooks :: model_state where
  "no_hooks = \<lparr>forward_hooks = [], next_id = 0\<rparr>"

definition default_options :: options where
  "default_options =
     \<lparr>opt_batch_dim = 0, opt_branching = True,
      opt_col_names = [''output_size'', ''num_params''], opt_col_width = 25,
      opt_depth = 3, opt_device = None, opt_dtypes = None, opt_verbose = 1\<rparr>"

text \<open>A container of a container of the first layer.\<close>

definition nested_11 :: module where
  "nested_11 = Module 11 ''Sequential'' [''Module''] []
     [Module 12 ''Sequential'' [''Module''] [] [linear_1]]"


text \<open>An attention block, which owns its input projection and has an output projection as child.\<close>

definition attention_4 :: module where
  "attention_4 = Module 4 ''MultiheadAttention'' [''Module'']
     [\<lparr>pid = 40, numel = 48, requires_grad = True\<rparr>]
     [Module 5 ''NonDynamicallyQuantizableLinear'' [''Linear'', ''Module'']
        [\<lparr>pid = 50, numel = 16, requires_grad = True\<rparr>] []]"

section \<open>Counting parameters\<close>

text \<open>
  How often the totals count a parameter identity: once for each record that is not
  recursive and owns it.
\<close>

definition times_counted :: "nat \<Rightarrow> layer_info list \<Rightarrow> nat" where
  "times_counted p l = count_list (map pid (attributed l)) p"

text \<open>
  What the hook makes of a record, given the records before it: the two counts over the
  parameters the module owns, and the recursion flag.
\<close>

definition record_ok :: "layer_info list \<Rightarrow> layer_info \<Rightarrow> bool" where
  "record_ok prev r =
     (num_params_trainable r
        = sum_list (map numel (filter requires_grad (own_parameters (li_module r))))
      \<and> num_params_frozen r
        = sum_list (map numel (filter (\<lambda>p. \<not> requires_grad p) (own_parameters (li_module r))))
      \<and> is_recursive r
        = list_ex (\<lambda>p. List.member (map pid (attributed prev)) p) (owned_ids r))"

definition records_ok :: "layer_info list \<Rightarrow> bool" where
  "records_ok l = (\<forall>i < length l. record_ok (take i l) (l ! i))"

text \<open>Two layers that share one of their two parameters, and a model holding both.\<close>

definition shared_6 :: module where
  "shared_6 = Module 6 ''Linear'' [''Module'']
     [\<lparr>pid = 60, numel = 20, requires_grad = True\<rparr>,
      \<lparr>pid = 61, numel = 4, requires_grad = True\<rparr>] []"

definition shared_7 :: module where
  "shared_7 = Module 7 ''Linear'' [''Module'']
     [\<lparr>pid = 61, numel = 4, requires_grad = True\<rparr>,
      \<lparr>pid = 62, numel = 12, requires_grad = False\<rparr>] []"

text \<open>A layer that lists one parameter tensor under two names.\<close>

definition tied_9 :: module where
  "tied_9 = Module 9 ''Tied'' [''Module'']
     [\<lparr>pid = 70, numel = 8, requires_grad = True\<rparr>,
      \<lparr>pid = 70, numel = 8, requires_grad = True\<rparr>] []"

definition net_8 :: module where
  "net_8 = Module 8 ''Net'' [''Module''] [] [shared_6, shared_7]"

text \<open>The invariant of a pass, and the records of a pass that starts afresh.\<close>

definition pass_ok :: "pass_state \<Rightarrow> bool" where
  "pass_ok s = (records_ok (summary_list s) \<and> distinct (map pid (attributed (summary_list s))))"

definition records_of_pass ::
  "(nat \<times> hook_entry) list \<Rightarrow> nat list \<Rightarrow> module list \<Rightarrow> layer_info list" where
  "records_of_pass reg hooks calls = summary_list (run_calls reg hooks calls fresh_pass)"


section \<open>The hook and the counters\<close>

lemma hook_fields:
  "li_depth (last (summary_list (hook d m s))) = d"
  "li_module (last (summary_list (hook d m s))) = m"
  "li_order (last (summary_list (hook d m s))) = (case idx s d of None \<Rightarrow> 0 | Some v \<Rightarrow> v) + 1"
  "summary_list (hook d m s) = summary_list s @ [last (summary_list (hook d m s))]"
  "idx (hook d m s) = (idx s)(d \<mapsto> (case idx s d of None \<Rightarrow> 0 | Some v \<Rightarrow> v) + 1)"
  by (simp_all add: hook_def Let_def LayerInfo_def calculate_num_params_def check_recursive_def)

lemma counters_ok_hook:
  assumes "counters_ok s"
  shows "counters_ok (hook d m s)"
proof -
  let ?r = "last (summary_list (hook d m s))"
  have l: "summary_list (hook d m s) = summary_list s @ [?r]" by (rule hook_fields(4))
  show ?thesis
    unfolding counters_ok_def
  proof (intro allI)
    fix e
    show "idx (hook d m s) e = (if at_depth e (summary_list (hook d m s)) = [] then None
                                  else Some (int (length (at_depth e (summary_list (hook d m s))))))
          \<and> map li_order (at_depth e (summary_list (hook d m s)))
              = map int [1..<Suc (length (at_depth e (summary_list (hook d m s))))]"
    proof (cases "e = d")
      case True
      from assms have a: "idx s d = (if at_depth d (summary_list s) = [] then None
                                  else Some (int (length (at_depth d (summary_list s)))))"
        and b: "map li_order (at_depth d (summary_list s))
                          = map int [1..<Suc (length (at_depth d (summary_list s)))]"
        by (simp_all add: counters_ok_def)
      have c: "at_depth d (summary_list (hook d m s)) = at_depth d (summary_list s) @ [?r]"
        by (subst l) (simp add: at_depth_def hook_fields(1))
      have o: "li_order ?r = int (length (at_depth d (summary_list s))) + 1"
        using a by (simp add: hook_fields(3))
      show ?thesis using True a b c o by (simp add: hook_fields(5))
    next
      case False
      from assms have a: "idx s e = (if at_depth e (summary_list s) = [] then None
                                  else Some (int (length (at_depth e (summary_list s)))))"
        and b: "map li_order (at_depth e (summary_list s))
                          = map int [1..<Suc (length (at_depth e (summary_list s)))]"
        by (simp_all add: counters_ok_def)
      have c: "at_depth e (summary_list (hook d m s)) = at_depth e (summary_list s)"
        using False by (subst l) (simp add: at_depth_def hook_fields(1))
      show ?thesis using False a b c by (simp add: hook_fields(5))
    qed
  qed
qed

lemma counters_ok_call_hooks: "counters_ok s \<Longrightarrow> counters_ok (call_hooks reg hooks m s)"
  by (induction reg arbitrary: s) (simp_all add: counters_ok_hook)

lemma counters_ok_run_calls: "counters_ok s \<Longrightarrow> counters_ok (run_calls reg hooks ms s)"
  by (induction ms arbitrary: s) (simp_all add: counters_ok_call_hooks)

lemma counters_ok_fresh: "counters_ok fresh_pass"
  by (simp add: counters_ok_def fresh_pass_def at_depth_def)

lemma call_hooks_modules:
  "map li_module (summary_list (call_hooks reg hooks m s))
     = map li_module (summary_list s) @ map (\<lambda>e. m) (own_hooks reg hooks m)"
proof (induction reg arbitrary: s)
  case Nil
  show ?case by (simp add: own_hooks_def)
next
  case (Cons e es)
  have "map li_module (summary_list (hook (hk_depth (snd e)) m s))
          = map li_module (summary_list s) @ [m]"
    by (subst hook_fields(4)) (simp add: hook_fields(2))
  with Cons show ?case by (simp add: own_hooks_def)
qed

lemma run_calls_modules:
  "map li_module (summary_list (run_calls reg hooks ms s))
     = map li_module (summary_list s)
       @ concat (map (\<lambda>m. map (\<lambda>e. m) (own_hooks reg hooks m)) ms)"
  by (induction ms arbitrary: s) (simp_all add: call_hooks_modules)

text \<open>
  C8. Each run of the hook raises the counter of its depth by one, gives the new record
  that counter value as its order and puts the record at the end of the list. Hence, after
  any sequence of module calls of a pass that started with no counters and no records, the
  records of each depth carry the orders 1, 2, 3, ... in the order of observation, and the
  list holds, call after call, one record for each hook of the pass on the called module.
\<close>

theorem order_counts_per_depth:
  "idx (hook d m s) d = Some ((case idx s d of None \<Rightarrow> 0 | Some v \<Rightarrow> v) + 1)
   \<and> summary_list (hook d m s) = summary_list s @ [last (summary_list (hook d m s))]
   \<and> li_depth (last (summary_list (hook d m s))) = d
   \<and> Some (li_order (last (summary_list (hook d m s)))) = idx (hook d m s) d
   \<and> map li_order (at_depth e (summary_list (run_calls reg hooks ms fresh_pass)))
       = map int [1..<Suc (length (at_depth e (summary_list (run_calls reg hooks ms fresh_pass))))]
   \<and> idx (run_calls reg hooks ms fresh_pass) e
       = (if at_depth e (summary_list (run_calls reg hooks ms fresh_pass)) = [] then None
          else Some (int (length (at_depth e (summary_list (run_calls reg hooks ms fresh_pass))))))
   \<and> map li_module (summary_list (run_calls reg hooks ms fresh_pass))
       = concat (map (\<lambda>m. map (\<lambda>e. m) (own_hooks reg hooks m)) ms)"
proof -
  have ok: "counters_ok (run_calls reg hooks ms fresh_pass)"
    by (rule counters_ok_run_calls [OF counters_ok_fresh])
  have a: "map li_order (at_depth e (summary_list (run_calls reg hooks ms fresh_pass)))
       = map int [1..<Suc (length (at_depth e (summary_list (run_calls reg hooks ms fresh_pass))))]"
    using ok unfolding counters_ok_def by blast
  have b: "idx (run_calls reg hooks ms fresh_pass) e
       = (if at_depth e (summary_list (run_calls reg hooks ms fresh_pass)) = [] then None
          else Some (int (length (at_depth e (summary_list (run_calls reg hooks ms fresh_pass))))))"
    using ok unfolding counters_ok_def by blast
  have c: "map li_module (summary_list (run_calls reg hooks ms fresh_pass))
       = concat (map (\<lambda>m. map (\<lambda>e. m) (own_hooks reg hooks m)) ms)"
    by (simp add: run_calls_modules fresh_pass_def)
  have d: "idx (hook d m s) d = Some ((case idx s d of None \<Rightarrow> 0 | Some v \<Rightarrow> v) + 1)"
    by (simp add: hook_fields(5))
  have e: "Some (li_order (last (summary_list (hook d m s)))) = idx (hook d m s) d"
    by (simp add: hook_fields(3) hook_fields(5))
  show ?thesis
    using a b c d e hook_fields(1) [of d m s] hook_fields(4) [of d m s] by blast
qed

section \<open>Keyword arguments\<close>






section \<open>The synthetic input\<close>






lemma get_input_tensor_shapes:
  "get_input_tensor sizes bd dtypes device = Inr x \<Longrightarrow>
   length x = min (length sizes) (length dtypes)
   \<and> (\<forall>i < length x. input_shape (sizes ! i) bd = Inr (t_shape (x ! i))
         \<and> t_dtype (x ! i) = dtypes ! i \<and> t_device (x ! i) = device)"
proof (induction sizes bd dtypes device arbitrary: x rule: get_input_tensor.induct)
  case (1 sz sizes batch_dim dtype dtypes device)
  from "1.prems" obtain sh y where
    sh: "input_shape sz batch_dim = Inr sh"
    and y: "get_input_tensor sizes batch_dim dtypes device = Inr y"
    and x: "x = \<lparr>t_shape = sh, t_dtype = dtype, t_device = device\<rparr> # y"
    by (auto split: sum.splits)
  from "1.IH" [OF sh y] have ih: "length y = min (length sizes) (length dtypes)"
    "\<And>i. i < length y \<Longrightarrow> input_shape (sizes ! i) batch_dim = Inr (t_shape (y ! i))
         \<and> t_dtype (y ! i) = dtypes ! i \<and> t_device (y ! i) = device" by auto
  show ?case
  proof (intro conjI allI impI)
    show "length x = min (length (sz # sizes)) (length (dtype # dtypes))" using x ih(1) by simp
  next
    fix i assume "i < length x"
    then show "input_shape ((sz # sizes) ! i) batch_dim = Inr (t_shape (x ! i))"
      "t_dtype (x ! i) = (dtype # dtypes) ! i" "t_device (x ! i) = device"
      using x sh ih(2) by (cases i; simp)+
  qed
qed simp_all











section \<open>What the walker registers\<close>

lemma register_all_append: "register_all (xs @ ys) w = register_all ys (register_all xs w)"
  by (induction xs arbitrary: w) simp_all

lemma new_entries_append: "new_entries (xs @ ys) r = new_entries xs r @ new_entries ys r"
  by (simp add: new_entries_def)

lemma new_entries_Cons:
  "register_all (new_entries (v # vs) r) w
     = register_all (new_entries vs r) (register_all (new_entries [v] r) w)"
  by (simp add: new_entries_def)

lemma add_hook_register: "add_hook m d w = register_all [entry_of (m, d)] w"
  by (simp add: add_hook_def entry_of_def)

lemma apply_hooks_register:
  "apply_hooks m orig_model depth w curr_depth
     = register_all (new_entries (visits m depth curr_depth) orig_model) w"
  "apply_hooks_children memo ms orig_model depth w curr_depth
     = register_all (new_entries (visits_children memo ms depth curr_depth) orig_model) w"
proof (induction m orig_model depth w curr_depth and memo ms orig_model depth w curr_depth
       rule: apply_hooks_apply_hooks_children.induct)
  case (1 i c b ps ch orig_model depth w curr_depth)
  let ?m = "Module i c b ps ch"
  let ?w1 = "if instrumented ?m orig_model then add_hook ?m curr_depth w else w"
  have w1: "?w1 = register_all (new_entries [(?m, curr_depth)] orig_model) w"
    by (simp add: new_entries_def add_hook_register)
  show ?case
  proof (cases "curr_depth \<le> depth")
    case True
    have "apply_hooks ?m orig_model depth w curr_depth
            = apply_hooks_children [] ch orig_model depth ?w1 (curr_depth + 1)"
      using True by (simp add: Let_def)
    also have "\<dots> = register_all (new_entries (visits_children [] ch depth (curr_depth + 1)) orig_model) ?w1"
      using "1.IH" [OF refl True] .
    also have "\<dots> = register_all (new_entries ((?m, curr_depth) # visits_children [] ch depth (curr_depth + 1)) orig_model) w"
      unfolding w1 by (rule new_entries_Cons [symmetric])
    finally show ?thesis using True by simp
  next
    case False
    then show ?thesis using w1 by (simp add: Let_def)
  qed
next
  case (2 memo orig_model depth w curr_depth)
  show ?case by (simp add: new_entries_def)
next
  case (3 memo m ms orig_model depth w curr_depth)
  show ?case
  proof (cases "List.member memo (mid m)")
    case True
    with "3.IH"(1) show ?thesis by simp
  next
    case False
    with "3.IH"(2,3) show ?thesis
      by (simp add: new_entries_append register_all_append)
  qed
qed

lemma hook_entry_eta: "\<lparr>hk_module = hk_module e, hk_depth = hk_depth e\<rparr> = (e :: hook_entry)"
  by (cases e) simp

lemma register_all_closed:
  "register_all es (st, hs) =
     (st\<lparr>forward_hooks := forward_hooks st @ zip [next_id st..<next_id st + length es] es,
         next_id := next_id st + length es\<rparr>,
      hs @ [next_id st..<next_id st + length es])"
proof (induction es arbitrary: st hs)
  case Nil
  show ?case by simp
next
  case (Cons e es)
  have u: "[next_id st..<next_id st + length (e # es)]
             = next_id st # [Suc (next_id st)..<Suc (next_id st) + length es]"
    by (subst upt_conv_Cons) simp_all
  have "register_all (e # es) (st, hs)
          = register_all es (st\<lparr>forward_hooks := forward_hooks st @ [(next_id st, e)],
                                 next_id := Suc (next_id st)\<rparr>, hs @ [next_id st])"
    by (simp add: register_forward_hook_def hook_entry_eta)
  also have "\<dots> = (st\<lparr>forward_hooks := forward_hooks st
                           @ (next_id st, e) # zip [Suc (next_id st)..<Suc (next_id st) + length es] es,
                         next_id := Suc (next_id st) + length es\<rparr>,
                      hs @ next_id st # [Suc (next_id st)..<Suc (next_id st) + length es])"
    by (simp add: Cons.IH)
  finally show ?case unfolding u by simp
qed

section \<open>Handles and the hooks of a pass\<close>

lemma forward_hooks_remove_all:
  "forward_hooks (remove_all hs st) = filter (\<lambda>e. fst e \<notin> set hs) (forward_hooks st)"
  unfolding remove_all_def
proof (induction hs arbitrary: st)
  case Nil
  show ?case by simp
next
  case (Cons h hs)
  have "forward_hooks (fold remove_handle (h # hs) st)
          = filter (\<lambda>e. fst e \<notin> set hs) (forward_hooks (remove_handle h st))"
    using Cons.IH [of "remove_handle h st"] by simp
  also have "\<dots> = filter (\<lambda>e. fst e \<notin> set (h # hs)) (forward_hooks st)"
    by (auto simp: remove_handle_def intro: filter_cong)
  finally show ?case .
qed

lemma next_id_remove_all: "next_id (remove_all hs st) = next_id st"
  unfolding remove_all_def
  by (induction hs arbitrary: st) (simp_all add: remove_handle_def)

lemma filter_old_new:
  assumes "list_all (\<lambda>e. fst e < n) fh" "length es = k"
  shows "filter (\<lambda>e. fst e \<notin> set [n..<n + k]) (fh @ zip [n..<n + k] es) = fh"
proof -
  have a: "filter (\<lambda>e. fst e \<notin> set [n..<n + k]) fh = fh"
    using assms(1) by (induction fh) auto
  have b: "filter (\<lambda>e. fst e \<notin> set [n..<n + k]) (zip [n..<n + k] es) = []"
    by (auto simp: filter_empty_conv dest: set_zip_leftD)
  show ?thesis using a b by simp
qed

lemma own_hooks_old_new:
  assumes "list_all (\<lambda>e. fst e < n) fh" "length es = k"
  shows "own_hooks (fh @ zip [n..<n + k] es) [n..<n + k] m = hooks_on es m"
proof -
  have a: "filter (\<lambda>e. hk_module (snd e) = mid m \<and> fst e \<in> set [n..<n + k]) fh = []"
    using assms(1) by (induction fh) auto
  have c: "filter (\<lambda>e. hk_module (snd e) = mid m \<and> fst e \<in> set [n..<n + k]) (zip [n..<n + k] es)
            = filter (\<lambda>e. hk_module (snd e) = mid m) (zip [n..<n + k] es)"
    by (rule filter_cong) (auto dest: set_zip_leftD)
  have d: "map snd (filter (\<lambda>e. hk_module (snd e) = mid m) (zip [n..<n + k] es))
            = filter (\<lambda>e. hk_module e = mid m) (map snd (zip [n..<n + k] es))"
    by (simp add: filter_map comp_def)
  have e: "map snd (zip [n..<n + k] es) = es"
    using assms(2) by (simp add: map_snd_zip)
  show ?thesis
    unfolding own_hooks_def hooks_on_def using a c d e by simp
qed

lemma call_hooks_own:
  "call_hooks reg hooks m s = fold (\<lambda>e. hook (hk_depth e) m) (own_hooks reg hooks m) s"
  by (induction reg arbitrary: s) (simp_all add: own_hooks_def)

lemma run_calls_own:
  "run_calls reg hooks ms s
     = fold (\<lambda>m. fold (\<lambda>e. hook (hk_depth e) m) (own_hooks reg hooks m)) ms s"
  by (induction ms arbitrary: s) (simp_all add: call_hooks_own)

lemma apply_hooks_top:
  "apply_hooks model model depth (st, []) 0 =
     (st\<lparr>forward_hooks := forward_hooks st
            @ zip [next_id st..<next_id st + length (walk_entries model depth)]
                  (walk_entries model depth),
         next_id := next_id st + length (walk_entries model depth)\<rparr>,
      [next_id st..<next_id st + length (walk_entries model depth)])"
  by (simp add: apply_hooks_register register_all_closed walk_entries_def)

lemma pass_of_walk:
  assumes "wf_state st" "apply_hooks model model depth (st, []) 0 = (st1, hooks)"
  shows "run_calls (forward_hooks st1) hooks calls s = run_entries (walk_entries model depth) calls s"
    and "forward_hooks (remove_all hooks st1) = forward_hooks st"
    and "next_id (remove_all hooks st1) = next_id st + length (walk_entries model depth)"
    and "wf_state (remove_all hooks st1)"
proof -
  let ?es = "walk_entries model depth"
  let ?n = "next_id st"
  from assms(2) have st1: "forward_hooks st1 = forward_hooks st @ zip [?n..<?n + length ?es] ?es"
    and n1: "next_id st1 = ?n + length ?es"
    and h: "hooks = [?n..<?n + length ?es]"
    by (auto simp: apply_hooks_top)
  from assms(1) have wf: "list_all (\<lambda>e. fst e < ?n) (forward_hooks st)"
    by (simp add: wf_state_def)
  have own: "own_hooks (forward_hooks st1) hooks m = hooks_on ?es m" for m
    unfolding st1 h by (rule own_hooks_old_new [OF wf refl])
  show "run_calls (forward_hooks st1) hooks calls s = run_entries ?es calls s"
    by (simp add: run_calls_own own run_entries_def)
  show r: "forward_hooks (remove_all hooks st1) = forward_hooks st"
    unfolding forward_hooks_remove_all st1 h by (rule filter_old_new [OF wf refl])
  show n: "next_id (remove_all hooks st1) = ?n + length ?es"
    by (simp add: next_id_remove_all n1)
  show "wf_state (remove_all hooks st1)"
    using wf unfolding wf_state_def r n by (auto simp: list_all_iff)
qed

section \<open>The exits of the driver\<close>

lemma summary_rejected_options:
  "\<not> options_ok opts \<Longrightarrow>
   summary st model inp args opts kwargs cuda fwd
     = \<lparr>sr_value = Inl (Exc ''AssertionError''), sr_model = st, sr_printed = []\<rparr>"
  by (auto simp: summary_def options_ok_def)

lemma summary_rejected_input:
  assumes "options_ok opts"
    and "prepare_input inp (opt_batch_dim opts) (opt_dtypes opts) (resolve_device opts cuda) = Inl e"
  shows "summary st model inp args opts kwargs cuda fwd
     = \<lparr>sr_value = Inl e,
        sr_model = fst (apply_hooks model model (opt_depth opts) (st, []) 0),
        sr_printed = []\<rparr>"
  using assms by (auto simp: summary_def options_ok_def Let_def split: prod.splits)

lemma summary_forward:
  assumes wf: "wf_state st"
    and ok: "options_ok opts"
    and inp: "prepare_input inp (opt_batch_dim opts) (opt_dtypes opts) (resolve_device opts cuda)
               = Inr (input_size, x)"
    and fwd: "fwd x (forward_args args (resolve_device opts cuda))
                    (forward_kwargs kwargs (resolve_device opts cuda)) = (calls, raised)"
  shows "sr_value (summary st model inp args opts kwargs cuda fwd)
           = (case raised of
                Some e \<Rightarrow> Inl e
              | None \<Rightarrow> Inr (statistics_of (pass_records model (opt_depth opts) calls) input_size opts))"
    and "sr_printed (summary st model inp args opts kwargs cuda fwd)
           = (case raised of
                Some e \<Rightarrow> if is_Exception e
                          then [Diagnostic (pass_records model (opt_depth opts) calls)] else []
              | None \<Rightarrow> if opt_verbose opts > 0
                        then [Report (statistics_of (pass_records model (opt_depth opts) calls)
                                        input_size opts)]
                        else [])"
    and "forward_hooks (sr_model (summary st model inp args opts kwargs cuda fwd)) = forward_hooks st"
    and "wf_state (sr_model (summary st model inp args opts kwargs cuda fwd))"
proof -
  obtain st1 hooks where ah: "apply_hooks model model (opt_depth opts) (st, []) 0 = (st1, hooks)"
    by (cases "apply_hooks model model (opt_depth opts) (st, []) 0")
  note pw = pass_of_walk [OF wf ah]
  have v: "\<not> (opt_verbose opts \<noteq> 0 \<and> opt_verbose opts \<noteq> 1 \<and> opt_verbose opts \<noteq> 2)"
    using ok by (auto simp: options_ok_def)
  let ?s = "run_calls (forward_hooks st1) hooks calls fresh_pass"
  have rec: "summary_list ?s = pass_records model (opt_depth opts) calls"
    by (simp add: pw(1) pass_records_def)
  have S: "summary st model inp args opts kwargs cuda fwd =
        (case raised of
           Some e \<Rightarrow> \<lparr>sr_value = Inl e, sr_model = remove_all hooks st1,
                      sr_printed = (if is_Exception e then [Diagnostic (summary_list ?s)] else [])\<rparr>
         | None \<Rightarrow> \<lparr>sr_value = Inr (statistics_of (summary_list ?s) input_size opts),
                    sr_model = remove_all hooks st1,
                    sr_printed = (if opt_verbose opts > 0
                                  then [Report (statistics_of (summary_list ?s) input_size opts)]
                                  else [])\<rparr>)"
    unfolding summary_def using v ah inp fwd
    by (auto simp: Let_def statistics_of_def split: option.splits)
  show "sr_value (summary st model inp args opts kwargs cuda fwd)
           = (case raised of
                Some e \<Rightarrow> Inl e
              | None \<Rightarrow> Inr (statistics_of (pass_records model (opt_depth opts) calls) input_size opts))"
    unfolding S rec by (simp split: option.splits)
  show "sr_printed (summary st model inp args opts kwargs cuda fwd)
           = (case raised of
                Some e \<Rightarrow> if is_Exception e
                          then [Diagnostic (pass_records model (opt_depth opts) calls)] else []
              | None \<Rightarrow> if opt_verbose opts > 0
                        then [Report (statistics_of (pass_records model (opt_depth opts) calls)
                                        input_size opts)]
                        else [])"
    unfolding S rec by (simp split: option.splits)
  have m: "sr_model (summary st model inp args opts kwargs cuda fwd) = remove_all hooks st1"
    unfolding S by (simp split: option.splits)
  show "forward_hooks (sr_model (summary st model inp args opts kwargs cuda fwd)) = forward_hooks st"
    unfolding m by (rule pw(2))
  show "wf_state (sr_model (summary st model inp args opts kwargs cuda fwd))"
    unfolding m by (rule pw(4))
qed

section \<open>Removal of the hooks\<close>

lemma summary_state_independent:
  assumes "wf_state st" "wf_state st'"
  shows "sr_value (summary st model inp args opts kwargs cuda fwd)
           = sr_value (summary st' model inp args opts kwargs cuda fwd)
       \<and> sr_printed (summary st model inp args opts kwargs cuda fwd)
           = sr_printed (summary st' model inp args opts kwargs cuda fwd)"
proof (cases "options_ok opts")
  case False
  then show ?thesis by (simp add: summary_rejected_options)
next
  case ok: True
  show ?thesis
  proof (cases "prepare_input inp (opt_batch_dim opts) (opt_dtypes opts) (resolve_device opts cuda)")
    case (Inl e)
    then show ?thesis by (simp add: summary_rejected_input [OF ok])
  next
    case (Inr y)
    obtain input_size x where y: "y = (input_size, x)" by (cases y)
    obtain calls raised where
      f: "fwd x (forward_args args (resolve_device opts cuda))
                (forward_kwargs kwargs (resolve_device opts cuda)) = (calls, raised)"
      by (cases "fwd x (forward_args args (resolve_device opts cuda))
                (forward_kwargs kwargs (resolve_device opts cuda))")
    note p = Inr [unfolded y]
    show ?thesis
      by (simp add: summary_forward(1,2)
                      [where fwd = fwd and args = args and kwargs = kwargs, OF assms(1) ok p f]
                    summary_forward(1,2)
                      [where fwd = fwd and args = args and kwargs = kwargs, OF assms(2) ok p f])
  qed
qed

text \<open>
  C5. Once the input has been accepted, so that the forward pass is run, the model is left
  with exactly the hooks it had before the call, whether the pass returned or raised: every
  handle of the pass has been removed. A later call of \<open>summary\<close> on the model left behind
  returns and prints what it would have on the model as it was before, so its record list
  holds nothing twice.
\<close>

theorem hooks_removed_after_forward:
  assumes "wf_state st"
    and "prepare_input inp (opt_batch_dim opts) (opt_dtypes opts) (resolve_device opts cuda) = Inr y"
  shows "forward_hooks (sr_model (summary st model inp args opts kwargs cuda fwd)) = forward_hooks st
    \<and> wf_state (sr_model (summary st model inp args opts kwargs cuda fwd))
    \<and> sr_value (summary (sr_model (summary st model inp args opts kwargs cuda fwd))
                   model inp2 args2 opts2 kwargs2 cuda2 fwd2)
        = sr_value (summary st model inp2 args2 opts2 kwargs2 cuda2 fwd2)
    \<and> sr_printed (summary (sr_model (summary st model inp args opts kwargs cuda fwd))
                     model inp2 args2 opts2 kwargs2 cuda2 fwd2)
        = sr_printed (summary st model inp2 args2 opts2 kwargs2 cuda2 fwd2)"
proof -
  let ?st' = "sr_model (summary st model inp args opts kwargs cuda fwd)"
  have a: "forward_hooks ?st' = forward_hooks st \<and> wf_state ?st'"
  proof (cases "options_ok opts")
    case False
    then show ?thesis using assms(1) by (simp add: summary_rejected_options)
  next
    case ok: True
    obtain input_size x where y: "y = (input_size, x)" by (cases y)
    obtain calls raised where
      f: "fwd x (forward_args args (resolve_device opts cuda))
                (forward_kwargs kwargs (resolve_device opts cuda)) = (calls, raised)"
      by (cases "fwd x (forward_args args (resolve_device opts cuda))
                (forward_kwargs kwargs (resolve_device opts cuda))")
    show ?thesis
      using summary_forward(3,4)
          [where fwd = fwd and args = args and kwargs = kwargs,
           OF assms(1) ok assms(2) [unfolded y] f]
      by simp
  qed
  then have "wf_state ?st'" by simp
  from summary_state_independent [OF this assms(1)] a show ?thesis by simp
qed

theorem hooks_removed_after_forward_witness:
  "forward_hooks (sr_model (summary no_hooks sequential_0 (InValue (VList [VInt 1, VInt 10])) []
      default_options [] False (\<lambda>x a k. ([linear_1], Some (Exc ''RuntimeError''))))) = []
   \<and> sr_value (summary
        (sr_model (summary no_hooks sequential_0 (InValue (VList [VInt 1, VInt 10])) []
           default_options [] False (\<lambda>x a k. ([linear_1], Some (Exc ''RuntimeError'')))))
        sequential_0 (InValue (VList [VInt 1, VInt 10])) [] default_options [] False
        (\<lambda>x a k. ([linear_1, sequential_0], None)))
     = Inr (statistics_of
          [\<lparr>li_module = linear_1, li_depth = 1, li_order = 1, num_params_trainable = 55,
            num_params_frozen = 0, is_recursive = False\<rparr>]
          [VTuple [VInt 1, VInt 10]] default_options)"
proof -
  have w: "wf_state no_hooks" by (simp add: wf_state_def no_hooks_def)
  have p: "prepare_input (InValue (VList [VInt 1, VInt 10])) (opt_batch_dim default_options)
             (opt_dtypes default_options) (resolve_device default_options False)
           = Inr ([VTuple [VInt 1, VInt 10]],
                  [\<lparr>t_shape = [2, 1, 10], t_dtype = ''float'', t_device = ''cpu''\<rparr>])"
    by (simp add: prepare_input_def default_options_def resolve_device_def input_shape_def unsqueeze_def cat2_def)
  have v: "sr_value (summary no_hooks sequential_0 (InValue (VList [VInt 1, VInt 10])) []
             default_options [] False (\<lambda>x a k. ([linear_1, sequential_0], None)))
     = Inr (statistics_of
          [\<lparr>li_module = linear_1, li_depth = 1, li_order = 1, num_params_trainable = 55,
            num_params_frozen = 0, is_recursive = False\<rparr>]
          [VTuple [VInt 1, VInt 10]] default_options)"
    by (simp add: summary_def no_hooks_def sequential_0_def linear_1_def default_options_def
        resolve_device_def prepare_input_def instrumented_def modules_def add_hook_def
        register_forward_hook_def Let_def input_shape_def unsqueeze_def cat2_def
        statistics_of_def fresh_pass_def hook_def LayerInfo_def calculate_num_params_def
        check_recursive_def owned_ids_def attributed_def isinstance_def LAYER_MODULES_def)
  show ?thesis
    using hooks_removed_after_forward [OF w p, of sequential_0 "[]" "[]"
        "\<lambda>x a k. ([linear_1], Some (Exc ''RuntimeError''))"
        "InValue (VList [VInt 1, VInt 10])" "[]" default_options "[]" False
        "\<lambda>x a k. ([linear_1, sequential_0], None)"] v
    by (simp add: no_hooks_def)
qed

text \<open>
  C4. The claim is that a rejected input leaves no hook on the model. With an empty list of
  shapes, \<open>summary\<close> on a single fully connected layer that has no hooks raises the
  assertion error of \<open>get_correct_input_sizes\<close> and leaves the hook that \<open>apply_hooks\<close>
  registered before the input was looked at.
\<close>

theorem rejected_input_leaves_hook:
  "summary no_hooks linear_1 (InValue (VList [])) [] default_options [] False fwd
   = \<lparr>sr_value = Inl (Exc ''AssertionError''),
      sr_model = \<lparr>forward_hooks = [(0, \<lparr>hk_module = 1, hk_depth = 0\<rparr>)], next_id = 1\<rparr>,
      sr_printed = []\<rparr>"
  by (simp add: summary_def no_hooks_def linear_1_def default_options_def resolve_device_def
      prepare_input_def instrumented_def modules_def add_hook_def register_forward_hook_def Let_def)

section \<open>A forward pass that raises\<close>

text \<open>The definitions that evaluating \<open>summary\<close> on a small model unfolds.\<close>

lemmas eval_defs =
  summary_def no_hooks_def sequential_0_def linear_1_def default_options_def
  resolve_device_def prepare_input_def instrumented_def modules_def add_hook_def
  register_forward_hook_def Let_def input_shape_def unsqueeze_def cat2_def
  statistics_of_def fresh_pass_def hook_def LayerInfo_def calculate_num_params_def
  check_recursive_def owned_ids_def attributed_def isinstance_def LAYER_MODULES_def
  remove_all_def remove_handle_def forward_args_def forward_kwargs_def

text \<open>
  C6, as amended. When the forward pass raises an exception that derives from \<open>Exception\<close>,
  \<open>summary\<close> prints one diagnostic, holding the records that the hooks of the pass had
  appended when the exception came, and raises that same exception. An exception outside
  \<open>Exception\<close> is raised again as well, without a diagnostic.
\<close>

theorem forward_failure_reported:
  assumes "options_ok opts"
    and "prepare_input inp (opt_batch_dim opts) (opt_dtypes opts) (resolve_device opts cuda)
           = Inr (input_size, x)"
    and "fwd x (forward_args args (resolve_device opts cuda))
               (forward_kwargs kwargs (resolve_device opts cuda)) = (calls, Some e)"
  shows "sr_value (summary st model inp args opts kwargs cuda fwd) = Inl e
    \<and> sr_printed (summary st model inp args opts kwargs cuda fwd)
        = (if is_Exception e
           then [Diagnostic (summary_list
                   (run_calls
                      (forward_hooks (fst (apply_hooks model model (opt_depth opts) (st, []) 0)))
                      (snd (apply_hooks model model (opt_depth opts) (st, []) 0))
                      calls fresh_pass))]
           else [])"
  using assms
  by (auto simp: summary_def options_ok_def Let_def split: prod.splits)

theorem forward_failure_reported_witness:
  "sr_value (summary no_hooks sequential_0 (InValue (VList [VInt 1, VInt 10])) []
      default_options [] False (\<lambda>x a k. ([linear_1], Some (Exc ''RuntimeError''))))
     = Inl (Exc ''RuntimeError'')
   \<and> sr_printed (summary no_hooks sequential_0 (InValue (VList [VInt 1, VInt 10])) []
      default_options [] False (\<lambda>x a k. ([linear_1], Some (Exc ''RuntimeError''))))
     = [Diagnostic [\<lparr>li_module = linear_1, li_depth = 1, li_order = 1,
                     num_params_trainable = 55, num_params_frozen = 0, is_recursive = False\<rparr>]]"
proof -
  have o: "options_ok default_options" by (simp add: options_ok_def default_options_def)
  have p: "prepare_input (InValue (VList [VInt 1, VInt 10])) (opt_batch_dim default_options)
             (opt_dtypes default_options) (resolve_device default_options False)
           = Inr ([VTuple [VInt 1, VInt 10]],
                  [\<lparr>t_shape = [2, 1, 10], t_dtype = ''float'', t_device = ''cpu''\<rparr>])"
    by (simp add: prepare_input_def default_options_def resolve_device_def input_shape_def unsqueeze_def cat2_def)
  have f: "(\<lambda>x a k. ([linear_1], Some (Exc ''RuntimeError'')))
             [\<lparr>t_shape = [2, 1, 10], t_dtype = ''float'', t_device = ''cpu''\<rparr>]
             (forward_args [] (resolve_device default_options False))
             (forward_kwargs [] (resolve_device default_options False))
           = ([linear_1], Some (Exc ''RuntimeError''))" by simp
  show ?thesis
    using forward_failure_reported [where fwd = "\<lambda>x a k. ([linear_1], Some (Exc ''RuntimeError''))"
        and args = "[]" and kwargs = "[]", OF o p f, of no_hooks sequential_0]
    by (simp add: eval_defs)
qed

text \<open>
  C6 as stated fails: a forward pass ended by \<open>KeyboardInterrupt\<close>, which \<open>except Exception\<close>
  does not catch, is passed on without any diagnostic.
\<close>

theorem interrupt_not_reported:
  "sr_value (summary no_hooks sequential_0 (InValue (VList [VInt 1, VInt 10])) []
      default_options [] False (\<lambda>x a k. ([linear_1], Some (BaseExc ''KeyboardInterrupt''))))
     = Inl (BaseExc ''KeyboardInterrupt'')
   \<and> sr_printed (summary no_hooks sequential_0 (InValue (VList [VInt 1, VInt 10])) []
      default_options [] False (\<lambda>x a k. ([linear_1], Some (BaseExc ''KeyboardInterrupt''))))
     = []"
  by (simp add: eval_defs)

section \<open>The nodes the walker meets and their distance from the root\<close>

lemma visits_children_concat:
  "visits_children memo ms depth cd = concat (map (\<lambda>m. visits m depth cd) (named_children memo ms))"
  by (induction ms arbitrary: memo) simp_all

lemma visits_unfold:
  "visits m depth cd =
     (m, cd) # (if cd \<le> depth
                then concat (map (\<lambda>c. visits c depth (cd + 1)) (children_of m)) else [])"
  by (cases m) (simp add: visits_children_concat children_of_def)

lemma named_children_subset: "set (named_children memo ms) \<subseteq> set ms"
  by (induction ms arbitrary: memo) auto

lemma children_of_subset: "set (children_of m) \<subseteq> set (children m)"
  by (simp add: children_of_def named_children_subset)

lemma named_children_Nil: "named_children [] ms = [] \<longleftrightarrow> ms = []"
  by (cases ms) simp_all

lemma visits_level:
  "set (visits m depth cd)
     = {(x, cd + int k) | x k. x \<in> set (level k m) \<and> (k = 0 \<or> cd + int k \<le> depth + 1)}"
proof (induction m arbitrary: cd)
  case (Module i c b ps ch)
  let ?m = "Module i c b ps ch"
  let ?R = "\<lambda>m cd. {(x, cd + int k) | x k. x \<in> set (level k m) \<and> (k = 0 \<or> cd + int k \<le> depth + 1)}"
  have ih: "set (visits x depth d) = ?R x d" if "x \<in> set (children_of ?m)" for x d
    using Module.IH [of x d] that children_of_subset [of ?m] by auto
  show ?case
  proof (cases "cd \<le> depth")
    case True
    have "set (visits ?m depth cd) = insert (?m, cd) (\<Union>x \<in> set (children_of ?m). ?R x (cd + 1))"
      using True ih by (subst visits_unfold) simp
    also have "\<dots> = ?R ?m cd"
    proof (intro set_eqI iffI)
      fix v assume "v \<in> insert (?m, cd) (\<Union>x \<in> set (children_of ?m). ?R x (cd + 1))"
      then consider "v = (?m, cd)" | x y k where "x \<in> set (children_of ?m)" "v = (y, cd + 1 + int k)"
        "y \<in> set (level k x)" "k = 0 \<or> cd + 1 + int k \<le> depth + 1" by auto
      then show "v \<in> ?R ?m cd"
      proof cases
        case 1
        have "(?m, cd + int 0) \<in> ?R ?m cd" by (intro CollectI exI [of _ ?m] exI [of _ 0]) simp
        with 1 show ?thesis by simp
      next
        case 2
        have "y \<in> set (level (Suc k) ?m)" using 2(1,3) by auto
        moreover have "cd + int (Suc k) \<le> depth + 1" using 2(4) True by auto
        moreover have "v = (y, cd + int (Suc k))" using 2(2) by simp
        ultimately show ?thesis by blast
      qed
    next
      fix v assume "v \<in> ?R ?m cd"
      then obtain y k where v: "v = (y, cd + int k)" "y \<in> set (level k ?m)"
        "k = 0 \<or> cd + int k \<le> depth + 1" by auto
      show "v \<in> insert (?m, cd) (\<Union>x \<in> set (children_of ?m). ?R x (cd + 1))"
      proof (cases k)
        case 0
        with v show ?thesis by simp
      next
        case (Suc j)
        with v(2) obtain x where x: "x \<in> set (children_of ?m)" "y \<in> set (level j x)" by auto
        have "v = (y, cd + 1 + int j)" using v(1) Suc by simp
        moreover have "j = 0 \<or> cd + 1 + int j \<le> depth + 1" using v(3) Suc by auto
        ultimately have "v \<in> ?R x (cd + 1)" using x(2) by blast
        with x(1) show ?thesis by blast
      qed
    qed
    finally show ?thesis .
  next
    case False
    have a: "set (visits ?m depth cd) = {(?m, cd)}"
      using False by (subst visits_unfold) simp
    have "?R ?m cd = {(?m, cd)}"
    proof (intro set_eqI iffI)
      fix v assume "v \<in> ?R ?m cd"
      then obtain y k where v: "v = (y, cd + int k)" "y \<in> set (level k ?m)"
        "k = 0 \<or> cd + int k \<le> depth + 1" by auto
      from v(3) False have "k = 0" by auto
      with v show "v \<in> {(?m, cd)}" by simp
    next
      fix v assume "v \<in> {(?m, cd)}"
      then have "v = (?m, cd + int 0)" by simp
      then show "v \<in> ?R ?m cd" by (intro CollectI exI [of _ ?m] exI [of _ 0]) simp
    qed
    with a show ?thesis by simp
  qed
qed

section \<open>How deep the walker goes\<close>









section \<open>The depth of a record\<close>









section \<open>Which nodes are given a hook\<close>

lemma instrumented_other: "mid m \<noteq> mid root \<Longrightarrow> instrumented m root"
  by (simp add: instrumented_def)

lemma named_modules_of_known:
  "list_all (\<lambda>c. mid c \<in> set memo) ms \<Longrightarrow> named_modules_of ms memo = ([], memo)"
proof (induction ms)
  case Nil
  show ?case by simp
next
  case (Cons c ms)
  obtain i cl b ps ch where c: "c = Module i cl b ps ch" by (cases c)
  from Cons.prems have "i \<in> set memo" by (simp add: c)
  then have "named_modules c memo = ([], memo)" by (simp add: c)
  with Cons show ?case by simp
qed

lemma named_modules_of_new:
  assumes "\<not> list_all (\<lambda>c. mid c \<in> set memo) ms"
  shows "\<exists>c \<in> set (fst (named_modules_of ms memo)). mid c \<notin> set memo"
  using assms
proof (induction ms)
  case Nil
  then show ?case by simp
next
  case (Cons c ms)
  obtain i cl b ps ch where c: "c = Module i cl b ps ch" by (cases c)
  show ?case
  proof (cases "i \<in> set memo")
    case True
    then have "named_modules c memo = ([], memo)" by (simp add: c)
    moreover from Cons.prems True have "\<not> list_all (\<lambda>c. mid c \<in> set memo) ms" by (simp add: c)
    ultimately show ?thesis using Cons.IH by (auto split: prod.splits)
  next
    case False
    obtain xs memo1 where x: "named_modules_of ch (i # memo) = (xs, memo1)"
      by (cases "named_modules_of ch (i # memo)")
    have "named_modules c memo = (c # xs, memo1)" using False x by (simp add: c)
    then have "c \<in> set (fst (named_modules_of (c # ms) memo))"
      by (auto split: prod.splits)
    moreover have "mid c \<notin> set memo" using False by (simp add: c)
    ultimately show ?thesis by blast
  qed
qed

lemma modules_unfold: "modules m = m # fst (named_modules_of (children m) [mid m])"
  by (cases m) (simp add: modules_def split: prod.splits)

lemma instrumented_iff:
  "instrumented m root
     = (mid m \<noteq> mid root \<or> isinstance m LAYER_MODULES
        \<or> list_all (\<lambda>c. mid c = mid m) (children m))"
proof (cases "mid m = mid root")
  case False
  then show ?thesis by (simp add: instrumented_other)
next
  case True
  have "(filter (\<lambda>x. mid x \<noteq> mid root) (modules m) = [])
          = list_all (\<lambda>c. mid c = mid m) (children m)"
  proof (cases "list_all (\<lambda>c. mid c \<in> set [mid m]) (children m)")
    case known: True
    from named_modules_of_known [OF known] have "modules m = [m]"
      by (simp add: modules_unfold)
    with known True show ?thesis by simp
  next
    case new: False
    from named_modules_of_new [OF new] obtain c where
      "c \<in> set (fst (named_modules_of (children m) [mid m]))" "mid c \<notin> set [mid m]" by blast
    then have "c \<in> set (modules m)" "mid c \<noteq> mid root"
      using True by (simp_all add: modules_unfold)
    then have "filter (\<lambda>x. mid x \<noteq> mid root) (modules m) \<noteq> []"
      by (auto simp: filter_empty_conv)
    with new show ?thesis by simp
  qed
  with True show ?thesis by (simp add: instrumented_def)
qed

text \<open>
  C2, as amended. The walker registers a hook for a node it meets exactly when the node is
  not the root, or its class is among \<open>LAYER_MODULES\<close>, or it has no child other than
  itself, that is, no descendant modules. So the root, which is met first, is given a hook
  only when it is of such a class or has no such child (no child at all, when the root is not
  a child of itself), and every other node met, whatever its class, is given one. The nodes
  met are those at distance at most \<open>max_depth + 1\<close> from the root; the hooks registered are
  those of the nodes met, so a node that is not met is given none.
\<close>

theorem observer_attached_iff:
  "apply_hooks root root depth w 0
     = register_all
         (map entry_of
            (filter (\<lambda>v. mid (fst v) \<noteq> mid root \<or> isinstance (fst v) LAYER_MODULES
                          \<or> list_all (\<lambda>c. mid c = mid (fst v)) (children (fst v)))
               (visits root depth 0))) w
   \<and> instrumented v root
       = (mid v \<noteq> mid root \<or> isinstance v LAYER_MODULES
          \<or> list_all (\<lambda>c. mid c = mid v) (children v))
   \<and> hd (visits root depth 0) = (root, 0)
   \<and> instrumented root root
       = (isinstance root LAYER_MODULES \<or> list_all (\<lambda>c. mid c = mid root) (children root))
   \<and> (list_all (\<lambda>c. mid c \<noteq> mid root) (children root)
        \<longrightarrow> instrumented root root = (isinstance root LAYER_MODULES \<or> children root = []))
   \<and> list_all (\<lambda>v. mid (fst v) \<noteq> mid root \<longrightarrow> instrumented (fst v) root) (visits root depth 0)
   \<and> set (visits root depth 0)
       = {(x, int k) | x k. x \<in> set (level k root) \<and> (k = 0 \<or> int k \<le> depth + 1)}"
proof -
  have f: "filter (\<lambda>v. instrumented (fst v) root) (visits root depth 0)
            = filter (\<lambda>v. mid (fst v) \<noteq> mid root \<or> isinstance (fst v) LAYER_MODULES
                          \<or> list_all (\<lambda>c. mid c = mid (fst v)) (children (fst v)))
                (visits root depth 0)"
    by (rule filter_cong [OF refl]) (rule instrumented_iff)
  have a: "apply_hooks root root depth w 0
     = register_all
         (map entry_of
            (filter (\<lambda>v. mid (fst v) \<noteq> mid root \<or> isinstance (fst v) LAYER_MODULES
                          \<or> list_all (\<lambda>c. mid c = mid (fst v)) (children (fst v)))
               (visits root depth 0))) w"
    by (simp add: apply_hooks_register(1) new_entries_def f)
  have b: "instrumented root root
       = (isinstance root LAYER_MODULES \<or> list_all (\<lambda>c. mid c = mid root) (children root))"
    by (simp add: instrumented_iff)
  have c: "hd (visits root depth 0) = (root, 0)"
    by (subst visits_unfold) simp
  have d: "list_all (\<lambda>c. mid c \<noteq> mid root) (children root)
        \<longrightarrow> instrumented root root = (isinstance root LAYER_MODULES \<or> children root = [])"
  proof
    assume h: "list_all (\<lambda>c. mid c \<noteq> mid root) (children root)"
    have "list_all (\<lambda>c. mid c = mid root) (children root) = (children root = [])"
      using h by (cases "children root") auto
    with b show "instrumented root root = (isinstance root LAYER_MODULES \<or> children root = [])"
      by simp
  qed
  have e: "list_all (\<lambda>v. mid (fst v) \<noteq> mid root \<longrightarrow> instrumented (fst v) root)
             (visits root depth 0)"
    by (simp add: list_all_iff instrumented_other)
  have g: "set (visits root depth 0)
       = {(x, int k) | x k. x \<in> set (level k root) \<and> (k = 0 \<or> int k \<le> depth + 1)}"
    using visits_level [of root depth 0] by simp
  from a b c d e g instrumented_iff [of v root] show ?thesis by blast
qed

theorem observer_attached_iff_witness:
  "apply_hooks attention_4 attention_4 3 (no_hooks, []) 0
     = (\<lparr>forward_hooks = [(0, \<lparr>hk_module = 4, hk_depth = 0\<rparr>), (1, \<lparr>hk_module = 5, hk_depth = 1\<rparr>)],
         next_id = 2\<rparr>, [0, 1])
   \<and> apply_hooks sequential_3 sequential_3 3 (no_hooks, []) 0
     = (\<lparr>forward_hooks = [(0, \<lparr>hk_module = 1, hk_depth = 1\<rparr>), (1, \<lparr>hk_module = 2, hk_depth = 1\<rparr>)],
         next_id = 2\<rparr>, [0, 1])
   \<and> apply_hooks linear_1 linear_1 3 (no_hooks, []) 0
     = (\<lparr>forward_hooks = [(0, \<lparr>hk_module = 1, hk_depth = 0\<rparr>)], next_id = 1\<rparr>, [0])
   \<and> instrumented sequential_3 sequential_3 = False"
proof -
  have h: "list_all (\<lambda>c. mid c \<noteq> mid sequential_3) (children sequential_3)"
    by (simp add: sequential_3_def linear_1_def linear_2_def)
  have i: "\<not> (isinstance sequential_3 LAYER_MODULES \<or> children sequential_3 = [])"
    by (simp add: sequential_3_def isinstance_def LAYER_MODULES_def)
  have s: "instrumented sequential_3 sequential_3 = False"
    using observer_attached_iff [of sequential_3 3 "(no_hooks, [])" sequential_3] h i by blast
  show ?thesis
    using observer_attached_iff [of attention_4 3 "(no_hooks, [])" attention_4]
      observer_attached_iff [of sequential_3 3 "(no_hooks, [])" sequential_3]
      observer_attached_iff [of linear_1 3 "(no_hooks, [])" linear_1] s
    by (simp add: attention_4_def sequential_3_def linear_1_def linear_2_def no_hooks_def
        entry_of_def isinstance_def LAYER_MODULES_def register_forward_hook_def
        del: apply_hooks.simps)
qed

text \<open>
  C2 as stated fails: in a container of a container of one fully connected layer, walked with
  \<open>max_depth = 0\<close>, the layer is a node of the graph that is not the root and has no
  children, and it is given no hook; the only hook is that of the inner container.
\<close>

theorem unvisited_leaf_has_no_observer:
  "List.member (nodes nested_11) linear_1
   \<and> mid linear_1 \<noteq> mid nested_11
   \<and> children linear_1 = []
   \<and> apply_hooks nested_11 nested_11 0 (no_hooks, []) 0
       = (\<lparr>forward_hooks = [(0, \<lparr>hk_module = 12, hk_depth = 1\<rparr>)], next_id = 1\<rparr>, [0])"
  by (simp add: nested_11_def linear_1_def no_hooks_def instrumented_def add_hook_def
      register_forward_hook_def modules_def isinstance_def LAYER_MODULES_def)

section \<open>Parameter totals\<close>

lemma sum_list_split:
  "sum_list (map f (filter P xs)) + sum_list (map f (filter (\<lambda>x. \<not> P x) xs))
     = (sum_list (map f xs) :: nat)"
  by (induction xs) auto

lemma hook_record_ok: "record_ok (summary_list s) (last (summary_list (hook d m s)))"
  by (simp add: hook_def Let_def LayerInfo_def calculate_num_params_def check_recursive_def
      record_ok_def owned_ids_def)

lemma records_ok_snoc:
  assumes "records_ok l" "record_ok l r"
  shows "records_ok (l @ [r])"
  unfolding records_ok_def
proof (intro allI impI)
  fix i assume i: "i < length (l @ [r])"
  show "record_ok (take i (l @ [r])) ((l @ [r]) ! i)"
  proof (cases "i < length l")
    case True
    then show ?thesis using assms(1) by (simp add: records_ok_def nth_append)
  next
    case False
    with i have "i = length l" by simp
    then show ?thesis using assms(2) by simp
  qed
qed

lemma attributed_snoc:
  "attributed (l @ [r]) = attributed l @ (if is_recursive r then [] else own_parameters (li_module r))"
  by (simp add: attributed_def)

lemma record_ok_sum:
  "record_ok prev r \<Longrightarrow>
   num_params_trainable r + num_params_frozen r = sum_list (map numel (own_parameters (li_module r)))"
  by (simp add: record_ok_def sum_list_split)

lemma records_ok_each: "records_ok l \<Longrightarrow> r \<in> set l \<Longrightarrow> \<exists>prev. record_ok prev r"
  by (auto simp: records_ok_def in_set_conv_nth)

lemma sum_list_concat_map:
  "sum_list (map f (concat xss)) = (sum_list (map (\<lambda>xs. sum_list (map f xs)) xss) :: nat)"
  by (induction xss) simp_all

lemma total_params_attributed:
  assumes "records_ok l"
  shows "total_params (statistics_of l input_size opts) = sum_list (map numel (attributed l))"
proof -
  have "sum_list (map (\<lambda>r. num_params_trainable r + num_params_frozen r) (attributed_records l))
          = sum_list (map (\<lambda>r. sum_list (map numel (own_parameters (li_module r)))) (attributed_records l))"
  proof (rule arg_cong [where f = sum_list], rule map_cong [OF refl])
    fix r assume "r \<in> set (attributed_records l)"
    then have "r \<in> set l" by (simp add: attributed_records_def)
    from records_ok_each [OF assms this] obtain prev where "record_ok prev r" ..
    then show "num_params_trainable r + num_params_frozen r
                 = sum_list (map numel (own_parameters (li_module r)))"
      by (rule record_ok_sum)
  qed
  also have "\<dots> = sum_list (map numel (attributed l))"
    by (simp add: attributed_def attributed_records_def sum_list_concat_map comp_def)
  finally show ?thesis by (simp add: total_params_def statistics_of_def)
qed

lemma total_split:
  "total_params ms = trainable_params ms + frozen_params ms"
  by (simp add: total_params_def trainable_params_def frozen_params_def sum_list_addf)

lemma pass_ok_hook:
  assumes "pass_ok s" "distinct (map pid (own_parameters m))"
  shows "pass_ok (hook d m s)"
proof -
  let ?r = "last (summary_list (hook d m s))"
  have l: "summary_list (hook d m s) = summary_list s @ [?r]" by (rule hook_fields(4))
  have ok: "record_ok (summary_list s) ?r" by (rule hook_record_ok)
  have m: "li_module ?r = m" by (rule hook_fields(2))
  have a: "records_ok (summary_list (hook d m s))"
    by (subst l) (use assms(1) ok in \<open>auto simp: pass_ok_def intro: records_ok_snoc\<close>)
  have at: "attributed (summary_list (hook d m s))
              = attributed (summary_list s) @ (if is_recursive ?r then [] else own_parameters m)"
    by (subst l) (simp add: attributed_snoc m)
  have b: "distinct (map pid (attributed (summary_list (hook d m s))))"
  proof (cases "is_recursive ?r")
    case True
    then show ?thesis unfolding at using assms(1) by (simp add: pass_ok_def)
  next
    case False
    with ok have "set (owned_ids ?r) \<inter> set (map pid (attributed (summary_list s))) = {}"
      by (auto simp: record_ok_def list_ex_iff)
    then have "set (map pid (own_parameters m)) \<inter> set (map pid (attributed (summary_list s))) = {}"
      by (simp add: owned_ids_def m)
    then show ?thesis
      unfolding at using False assms by (auto simp: pass_ok_def)
  qed
  from a b show ?thesis by (simp add: pass_ok_def)
qed

lemma pass_ok_call_hooks:
  "pass_ok s \<Longrightarrow> distinct (map pid (own_parameters m)) \<Longrightarrow> pass_ok (call_hooks reg hooks m s)"
  by (induction reg arbitrary: s) (simp_all add: pass_ok_hook)

lemma pass_ok_run_calls:
  "pass_ok s \<Longrightarrow> list_all (\<lambda>m. distinct (map pid (own_parameters m))) ms
     \<Longrightarrow> pass_ok (run_calls reg hooks ms s)"
  by (induction ms arbitrary: s) (simp_all add: pass_ok_call_hooks)

lemma pass_ok_fresh: "pass_ok fresh_pass"
  by (simp add: pass_ok_def fresh_pass_def records_ok_def attributed_def)

lemma distinct_count_le: "distinct xs \<Longrightarrow> count_list xs x \<le> 1"
  by (induction xs) auto

lemma records_of_pass_ok:
  assumes "list_all (\<lambda>m. distinct (map pid (own_parameters m))) calls"
  shows "records_ok (records_of_pass reg hooks calls)"
    and "distinct (map pid (attributed (records_of_pass reg hooks calls)))"
  using pass_ok_run_calls [OF pass_ok_fresh assms, of reg hooks]
  by (simp_all add: pass_ok_def records_of_pass_def)

lemma distinct_count_one: "distinct xs \<Longrightarrow> (count_list xs x = 1) = (x \<in> set xs)"
  by (induction xs) auto

lemma records_ok_hook: "records_ok (summary_list s) \<Longrightarrow> records_ok (summary_list (hook d m s))"
  by (subst hook_fields(4)) (rule records_ok_snoc [OF _ hook_record_ok])

lemma records_ok_call_hooks:
  "records_ok (summary_list s) \<Longrightarrow> records_ok (summary_list (call_hooks reg hooks m s))"
  by (induction reg arbitrary: s) (simp_all add: records_ok_hook)

lemma records_ok_run_calls:
  "records_ok (summary_list s) \<Longrightarrow> records_ok (summary_list (run_calls reg hooks ms s))"
  by (induction ms arbitrary: s) (simp_all add: records_ok_call_hooks)

lemma records_of_pass_records_ok: "records_ok (records_of_pass reg hooks calls)"
  unfolding records_of_pass_def
  by (rule records_ok_run_calls) (simp add: fresh_pass_def records_ok_def)

lemma attributed_append: "attributed (xs @ ys) = attributed xs @ attributed ys"
  by (simp add: attributed_def)

lemma set_attributed_ids:
  "set (map pid (attributed l)) = (\<Union>r \<in> {r \<in> set l. \<not> is_recursive r}. set (owned_ids r))"
  by (auto simp: attributed_def owned_ids_def)

lemma records_disjoint:
  assumes ok: "records_ok l" and ij: "i < j" "j < length l"
    and ni: "\<not> is_recursive (l ! i)" and nj: "\<not> is_recursive (l ! j)"
  shows "set (owned_ids (l ! i)) \<inter> set (owned_ids (l ! j)) = {}"
proof -
  from ok ij(2) have "record_ok (take j l) (l ! j)" by (simp add: records_ok_def)
  with nj have a: "set (owned_ids (l ! j)) \<inter> set (map pid (attributed (take j l))) = {}"
    by (auto simp: record_ok_def list_ex_iff)
  have "l ! i \<in> set (take j l)" using ij by (auto simp: in_set_conv_nth)
  with ni have "set (owned_ids (l ! i)) \<subseteq> set (map pid (attributed (take j l)))"
    unfolding set_attributed_ids by blast
  with a show ?thesis by blast
qed

lemma count_attributed_zero:
  assumes "\<forall>r \<in> set xs. is_recursive r \<or> p \<notin> set (owned_ids r)"
  shows "count_list (map pid (attributed xs)) p = 0"
proof -
  have "p \<notin> set (map pid (attributed xs))"
    unfolding set_attributed_ids using assms by blast
  then show ?thesis by (simp add: count_list_0_iff)
qed

lemma counted_as_listed:
  assumes ok: "records_ok l" and i: "i < length l"
    and ni: "\<not> is_recursive (l ! i)" and p: "p \<in> set (owned_ids (l ! i))"
  shows "times_counted p l = count_list (owned_ids (l ! i)) p"
proof -
  have split: "l = take i l @ [l ! i] @ drop (Suc i) l"
    using i by (simp add: id_take_nth_drop)
  have before: "count_list (map pid (attributed (take i l))) p = 0"
  proof (rule count_attributed_zero, rule ballI)
    fix r assume "r \<in> set (take i l)"
    then obtain k where k: "k < i" "r = l ! k" using i by (auto simp: in_set_conv_nth)
    show "is_recursive r \<or> p \<notin> set (owned_ids r)"
    proof (cases "is_recursive r")
      case False
      with records_disjoint [OF ok k(1) i _ ni] k(2) p show ?thesis by blast
    qed simp
  qed
  have after: "count_list (map pid (attributed (drop (Suc i) l))) p = 0"
  proof (rule count_attributed_zero, rule ballI)
    fix r assume "r \<in> set (drop (Suc i) l)"
    then obtain k where k: "k < length l - Suc i" "r = l ! (Suc i + k)"
      by (auto simp: in_set_conv_nth)
    have lt: "i < Suc i + k" "Suc i + k < length l" using k(1) by auto
    show "is_recursive r \<or> p \<notin> set (owned_ids r)"
    proof (cases "is_recursive r")
      case False
      with records_disjoint [OF ok lt ni] k(2) p show ?thesis by blast
    qed simp
  qed
  have here: "map pid (attributed [l ! i]) = owned_ids (l ! i)"
    using ni by (simp add: attributed_def owned_ids_def)
  have "times_counted p l
          = count_list (map pid (attributed (take i l @ [l ! i] @ drop (Suc i) l))) p"
    unfolding times_counted_def using split by simp
  also have "\<dots> = count_list (owned_ids (l ! i)) p"
    unfolding attributed_append map_append count_list_append here before after by simp
  finally show ?thesis .
qed

lemma not_counted:
  assumes "list_all (\<lambda>r. is_recursive r \<or> p \<notin> set (owned_ids r)) l"
  shows "times_counted p l = 0"
  unfolding times_counted_def
  by (rule count_attributed_zero) (use assms in \<open>simp add: list_all_iff\<close>)


text \<open>
  C1, as amended. For every pass, the total is the sum of the trainable and the frozen
  total, and it is the sum of the element counts of the parameters owned by the records
  that are not recursive. No parameter tensor is attributed to two records: the identities
  owned by two different records that are not recursive are disjoint; a tensor is counted
  as often as the one such record that owns it lists it, and not at all when no such record
  owns it. Hence, when no called module lists the same tensor twice among its own
  parameters, every tensor is counted at most once, and exactly once when a record that is
  not recursive owns it. A record is recursive exactly when one of the identities it owns is
  owned by an earlier record of the pass that is not recursive.
\<close>

theorem parameters_counted_at_most_once:
  "total_params (statistics_of (records_of_pass reg hooks calls) input_size opts)
      = trainable_params (statistics_of (records_of_pass reg hooks calls) input_size opts)
        + frozen_params (statistics_of (records_of_pass reg hooks calls) input_size opts)
   \<and> total_params (statistics_of (records_of_pass reg hooks calls) input_size opts)
      = sum_list (map numel (attributed (records_of_pass reg hooks calls)))
   \<and> (\<forall>i j. i < j \<and> j < length (records_of_pass reg hooks calls)
            \<and> \<not> is_recursive (records_of_pass reg hooks calls ! i)
            \<and> \<not> is_recursive (records_of_pass reg hooks calls ! j)
          \<longrightarrow> set (owned_ids (records_of_pass reg hooks calls ! i))
                \<inter> set (owned_ids (records_of_pass reg hooks calls ! j)) = {})
   \<and> (\<forall>i. i < length (records_of_pass reg hooks calls)
          \<and> \<not> is_recursive (records_of_pass reg hooks calls ! i)
          \<and> List.member (owned_ids (records_of_pass reg hooks calls ! i)) p
        \<longrightarrow> times_counted p (records_of_pass reg hooks calls)
              = count_list (owned_ids (records_of_pass reg hooks calls ! i)) p)
   \<and> (list_all (\<lambda>r. is_recursive r \<or> \<not> List.member (owned_ids r) p)
         (records_of_pass reg hooks calls)
        \<longrightarrow> times_counted p (records_of_pass reg hooks calls) = 0)
   \<and> (list_all (\<lambda>m. distinct (map pid (own_parameters m))) calls
        \<longrightarrow> distinct (map pid (attributed (records_of_pass reg hooks calls)))
            \<and> times_counted p (records_of_pass reg hooks calls) \<le> 1
            \<and> (times_counted p (records_of_pass reg hooks calls) = 1)
                = List.member (map pid (attributed (records_of_pass reg hooks calls))) p)
   \<and> (\<forall>i < length (records_of_pass reg hooks calls).
          is_recursive (records_of_pass reg hooks calls ! i)
            = list_ex (\<lambda>q. List.member
                              (map pid (attributed (take i (records_of_pass reg hooks calls)))) q)
                (owned_ids (records_of_pass reg hooks calls ! i)))"
proof -
  let ?l = "records_of_pass reg hooks calls"
  note ok = records_of_pass_records_ok [of reg hooks calls]
  have a: "total_params (statistics_of ?l input_size opts)
           = trainable_params (statistics_of ?l input_size opts)
             + frozen_params (statistics_of ?l input_size opts)"
    by (rule total_split)
  have b: "total_params (statistics_of ?l input_size opts) = sum_list (map numel (attributed ?l))"
    by (rule total_params_attributed [OF ok])
  have c: "\<forall>i j. i < j \<and> j < length ?l \<and> \<not> is_recursive (?l ! i) \<and> \<not> is_recursive (?l ! j)
          \<longrightarrow> set (owned_ids (?l ! i)) \<inter> set (owned_ids (?l ! j)) = {}"
    using records_disjoint [OF ok] by blast
  have d: "\<forall>i. i < length ?l \<and> \<not> is_recursive (?l ! i) \<and> List.member (owned_ids (?l ! i)) p
        \<longrightarrow> times_counted p ?l = count_list (owned_ids (?l ! i)) p"
    using counted_as_listed [OF ok, of _ p] by simp
  have e: "list_all (\<lambda>r. is_recursive r \<or> \<not> List.member (owned_ids r) p) ?l
        \<longrightarrow> times_counted p ?l = 0"
    using not_counted [of p ?l] by simp
  have f: "list_all (\<lambda>m. distinct (map pid (own_parameters m))) calls
        \<longrightarrow> distinct (map pid (attributed ?l))
            \<and> times_counted p ?l \<le> 1
            \<and> (times_counted p ?l = 1) = List.member (map pid (attributed ?l)) p"
  proof
    assume h: "list_all (\<lambda>m. distinct (map pid (own_parameters m))) calls"
    note dist = records_of_pass_ok(2) [OF h, of reg hooks]
    have "times_counted p ?l \<le> 1"
      unfolding times_counted_def by (rule distinct_count_le [OF dist])
    moreover have "(times_counted p ?l = 1) = List.member (map pid (attributed ?l)) p"
      unfolding times_counted_def using distinct_count_one [OF dist, of p] by simp
    ultimately show "distinct (map pid (attributed ?l))
            \<and> times_counted p ?l \<le> 1
            \<and> (times_counted p ?l = 1) = List.member (map pid (attributed ?l)) p"
      using dist by blast
  qed
  have g: "\<forall>i < length ?l. is_recursive (?l ! i)
            = list_ex (\<lambda>q. List.member (map pid (attributed (take i ?l))) q) (owned_ids (?l ! i))"
    using ok by (simp add: records_ok_def record_ok_def)
  from a b c d e f g show ?thesis by blast
qed

theorem parameters_counted_at_most_once_witness:
  "total_params (statistics_of
       (records_of_pass [(0, \<lparr>hk_module = 6, hk_depth = 1\<rparr>), (1, \<lparr>hk_module = 7, hk_depth = 1\<rparr>)]
          [0, 1] [shared_6, shared_7]) [] default_options) = 24
   \<and> times_counted 61
        (records_of_pass [(0, \<lparr>hk_module = 6, hk_depth = 1\<rparr>), (1, \<lparr>hk_module = 7, hk_depth = 1\<rparr>)]
          [0, 1] [shared_6, shared_7]) = 1
   \<and> times_counted 70 (records_of_pass [(0, \<lparr>hk_module = 9, hk_depth = 0\<rparr>)] [0] [tied_9])
       = count_list [70, 70] 70"
proof -
  have h: "list_all (\<lambda>m. distinct (map pid (own_parameters m))) [shared_6, shared_7]"
    by (simp add: shared_6_def shared_7_def)
  have r: "attributed (records_of_pass
             [(0, \<lparr>hk_module = 6, hk_depth = 1\<rparr>), (1, \<lparr>hk_module = 7, hk_depth = 1\<rparr>)]
             [0, 1] [shared_6, shared_7])
           = [\<lparr>pid = 60, numel = 20, requires_grad = True\<rparr>,
              \<lparr>pid = 61, numel = 4, requires_grad = True\<rparr>]"
    by (simp add: records_of_pass_def shared_6_def shared_7_def eval_defs)
  have t: "records_of_pass [(0, \<lparr>hk_module = 9, hk_depth = 0\<rparr>)] [0] [tied_9]
           = [\<lparr>li_module = tied_9, li_depth = 0, li_order = 1, num_params_trainable = 16,
               num_params_frozen = 0, is_recursive = False\<rparr>]"
    by (simp add: records_of_pass_def tied_9_def eval_defs)
  have o: "owned_ids \<lparr>li_module = tied_9, li_depth = 0, li_order = 1, num_params_trainable = 16,
               num_params_frozen = 0, is_recursive = False\<rparr> = [70, 70]"
    by (simp add: owned_ids_def tied_9_def)
  show ?thesis
    using parameters_counted_at_most_once
        [of "[(0, \<lparr>hk_module = 6, hk_depth = 1\<rparr>), (1, \<lparr>hk_module = 7, hk_depth = 1\<rparr>)]"
           "[0, 1]" "[shared_6, shared_7]" "[]" default_options 61] h
      parameters_counted_at_most_once
        [of "[(0, \<lparr>hk_module = 9, hk_depth = 0\<rparr>)]" "[0]" "[tied_9]" "[]" default_options 70]
    unfolding r t by (simp add: o)
qed

text \<open>
  C1 as stated fails. Of two observed layers that share one parameter, the second is
  recursive, and the parameter that it alone owns is not counted at all. And a layer that
  lists one tensor under two names is counted with that tensor twice.
\<close>

theorem shared_layer_parameter_not_counted:
  "sr_value (summary no_hooks net_8 (InValue (VList [VInt 1, VInt 10])) [] default_options []
      False (\<lambda>x a k. ([shared_6, shared_7, net_8], None)))
     = Inr (statistics_of
         [\<lparr>li_module = shared_6, li_depth = 1, li_order = 1, num_params_trainable = 24,
           num_params_frozen = 0, is_recursive = False\<rparr>,
          \<lparr>li_module = shared_7, li_depth = 1, li_order = 2, num_params_trainable = 4,
           num_params_frozen = 12, is_recursive = True\<rparr>]
         [VTuple [VInt 1, VInt 10]] default_options)
   \<and> List.member (map pid (own_parameters shared_7)) 62
   \<and> times_counted 62
        [\<lparr>li_module = shared_6, li_depth = 1, li_order = 1, num_params_trainable = 24,
           num_params_frozen = 0, is_recursive = False\<rparr>,
          \<lparr>li_module = shared_7, li_depth = 1, li_order = 2, num_params_trainable = 4,
           num_params_frozen = 12, is_recursive = True\<rparr>] = 0
   \<and> total_params (statistics_of
         [\<lparr>li_module = shared_6, li_depth = 1, li_order = 1, num_params_trainable = 24,
           num_params_frozen = 0, is_recursive = False\<rparr>,
          \<lparr>li_module = shared_7, li_depth = 1, li_order = 2, num_params_trainable = 4,
           num_params_frozen = 12, is_recursive = True\<rparr>]
         [VTuple [VInt 1, VInt 10]] default_options) = 24
   \<and> sr_value (summary no_hooks tied_9 (InValue (VList [VInt 1, VInt 10])) [] default_options []
      False (\<lambda>x a k. ([tied_9], None)))
     = Inr (statistics_of
         [\<lparr>li_module = tied_9, li_depth = 0, li_order = 1, num_params_trainable = 16,
           num_params_frozen = 0, is_recursive = False\<rparr>]
         [VTuple [VInt 1, VInt 10]] default_options)
   \<and> times_counted 70
        [\<lparr>li_module = tied_9, li_depth = 0, li_order = 1, num_params_trainable = 16,
           num_params_frozen = 0, is_recursive = False\<rparr>] = 2"
  by (simp add: eval_defs net_8_def shared_6_def shared_7_def tied_9_def times_counted_def
      total_params_def attributed_records_def)

end
